theory Spec2Isabelle
  imports Main "HOL-Library.Sublist"
begin

section \<open>Results, errors and cancellation contexts\<close>

text \<open>
  The package \<^verbatim>\<open>future\<close> (file \<^verbatim>\<open>future/future.go\<close>) is embedded function by function.
  Go's \<^verbatim>\<open>error\<close> is an interface value that may be \<^verbatim>\<open>nil\<close>: it is \<open>error option\<close> here,
  \<open>None\<close> for \<^verbatim>\<open>nil\<close>. The two errors of package \<^verbatim>\<open>context\<close> that the code names are
  constructors of their own; every other error value is a \<open>Failure\<close>.
\<close>

datatype error = Canceled | DeadlineExceeded | Failure string

text \<open>\<^verbatim>\<open>type Result[T, E any] struct { Value T; Error E }\<close> (lines 9-12).\<close>

record ('t, 'e) Result =
  Value :: 't
  Error :: 'e

type_synonym 't result = "('t, error option) Result"

text \<open>
  A \<^verbatim>\<open>context.Context\<close> is observed by the code through \<^verbatim>\<open>ctx.Done()\<close> and \<^verbatim>\<open>ctx.Err()\<close>
  only. Its state at one instant is the value of \<^verbatim>\<open>ctx.Err()\<close>: \<open>None\<close> while the context is
  live, \<open>Some e\<close> once it is done, and \<^verbatim>\<open>ctx.Done()\<close> is ready exactly in the second case.
  A context that is done stays done with the same error.

  \<^verbatim>\<open>context.WithCancel(parent)\<close> derives a context that starts in the parent's state, becomes
  done with the parent's error when the parent is cancelled (\<open>parent_done\<close>), and becomes
  done with \<^verbatim>\<open>context.Canceled\<close> when its cancel function is called (\<open>cancel\<close>); whichever
  comes first decides the error.
\<close>

type_synonym ctx = "error option"

definition WithCancel :: "ctx \<Rightarrow> ctx" where
  "WithCancel parent = parent"

definition cancel :: "ctx \<Rightarrow> ctx" where
  "cancel c = (case c of None \<Rightarrow> Some Canceled | Some e \<Rightarrow> Some e)"

definition parent_done :: "error \<Rightarrow> ctx \<Rightarrow> ctx" where
  "parent_done e c = (case c of None \<Rightarrow> Some e | Some e' \<Rightarrow> Some e')"

section \<open>Futures and the task that \<^verbatim>\<open>Async\<close> dispatches\<close>

text \<open>
  \<^verbatim>\<open>type channelFuture[T any] struct { fn func() (T, error) }\<close> and \<^verbatim>\<open>New\<close> (lines 21-23,
  63-65). The wrapped function is a Go closure: it may never return, which is the value
  \<open>None\<close>; \<open>Some (value, err)\<close> is the pair it returns.
\<close>

datatype 't Future = New (fn: "unit \<Rightarrow> ('t \<times> error option) option")

text \<open>
  \<^verbatim>\<open>Async\<close> (lines 44-60) derives a context, makes a channel of capacity one and starts a
  goroutine. The goroutine and its channel are one \<open>task\<close>: \<open>Idle\<close> before the goroutine
  has executed its \<^verbatim>\<open>select\<close>, \<open>Running\<close> while \<open>fn\<close> executes, \<open>Delivered r\<close> once \<open>r\<close> has been
  sent on the channel (the send never blocks, the channel is buffered and written once).
\<close>

datatype 't task = Idle | Running | Delivered "'t result"

definition Async :: "ctx \<Rightarrow> ctx \<times> 't task" where
  "Async c = (WithCancel c, Idle)"

text \<open>
  Lines 50-53: the \<^verbatim>\<open>select\<close> with a \<^verbatim>\<open>default\<close> branch looks at the derived context once.
  If it is done, the result carries \<^verbatim>\<open>ctx.Err()\<close> and the zero value of \<open>T\<close> (the field
  \<^verbatim>\<open>Value\<close> is not set); otherwise \<open>fn\<close> is called. The zero value of the type parameter is
  the argument \<open>zero\<close>.
\<close>

definition task_select :: "'t \<Rightarrow> ctx \<Rightarrow> 't task \<Rightarrow> 't task" where
  "task_select zero c t =
     (case t of
        Idle \<Rightarrow> (case c of
                   Some e \<Rightarrow> Delivered \<lparr>Value = zero, Error = Some e\<rparr>
                 | None \<Rightarrow> Running)
      | _ \<Rightarrow> t)"

text \<open>Lines 54-55: \<open>fn\<close> returns and both of its results are sent, as they are.\<close>

definition task_return :: "'t Future \<Rightarrow> 't task \<Rightarrow> 't task" where
  "task_return f t =
     (case t of
        Running \<Rightarrow> (case fn f () of
                      Some (val, err) \<Rightarrow> Delivered \<lparr>Value = val, Error = err\<rparr>
                    | None \<Rightarrow> Running)
      | _ \<Rightarrow> t)"

section \<open>\<^verbatim>\<open>Await\<close> and \<^verbatim>\<open>AwaitWithTimeout\<close>\<close>

text \<open>
  What the Go scheduler and the environment decide is a list of events, the schedule; a
  theorem about every execution quantifies over every schedule. An event that is not
  enabled in a state leaves the state as it is.
  \<^item> \<open>CancelScope e\<close>: the caller's context becomes done with error \<open>e\<close>;
  \<^item> \<open>TaskSelect\<close>: the dispatched goroutine executes its \<^verbatim>\<open>select\<close> (lines 50-53);
  \<^item> \<open>TaskReturn\<close>: \<open>fn\<close> returns and its result is sent (lines 54-55);
  \<^item> \<open>Receive\<close>: the caller of \<^verbatim>\<open>Await\<close> takes the delivered result (line 27);
  \<^item> \<open>EnterSelect pick\<close>: the caller of \<^verbatim>\<open>AwaitWithTimeout\<close> enters its \<^verbatim>\<open>select\<close> (line 33),
    which starts the timer; \<open>pick\<close> is the choice Go makes among the cases that are ready at
    that moment. \<open>PickTimer\<close> is an entry at which the timer has already expired (a timeout
    that is zero or negative, or a goroutine that is scheduled late) and Go picks its case,
    whatever else is ready;
  \<^item> \<open>TimerFires\<close>: the channel of \<^verbatim>\<open>time.After(timeout)\<close> becomes ready.
\<close>

datatype pick = PickDone | PickResult | PickTimer

datatype event = CancelScope error | TaskSelect | TaskReturn | Receive
  | EnterSelect pick | TimerFires

record 't await_state =
  scope :: ctx
  derived :: ctx
  resultCh :: "'t task"
  waiting :: bool
  returned :: "'t result option"

definition await_init :: "ctx \<Rightarrow> 't await_state" where
  "await_init c =
     (let (c', t) = Async c
      in \<lparr>scope = c, derived = c', resultCh = t, waiting = False, returned = None\<rparr>)"

text \<open>
  \<^verbatim>\<open>Await\<close> (lines 25-28) calls \<^verbatim>\<open>Async\<close>, drops the cancel function and receives from the
  channel. It has no \<^verbatim>\<open>select\<close>: the caller's context is looked at by the task only.
\<close>

fun Await_step :: "'t \<Rightarrow> 't Future \<Rightarrow> event \<Rightarrow> 't await_state \<Rightarrow> 't await_state" where
  "Await_step zero f (CancelScope e) s =
     s\<lparr>scope := parent_done e (scope s), derived := parent_done e (derived s)\<rparr>"
| "Await_step zero f TaskSelect s =
     s\<lparr>resultCh := task_select zero (derived s) (resultCh s)\<rparr>"
| "Await_step zero f TaskReturn s =
     s\<lparr>resultCh := task_return f (resultCh s)\<rparr>"
| "Await_step zero f Receive s =
     (case returned s of
        Some r \<Rightarrow> s
      | None \<Rightarrow> (case resultCh s of Delivered r \<Rightarrow> s\<lparr>returned := Some r\<rparr> | _ \<Rightarrow> s))"
| "Await_step zero f (EnterSelect p) s = s"
| "Await_step zero f TimerFires s = s"

definition Await_run :: "'t \<Rightarrow> 't Future \<Rightarrow> event list \<Rightarrow> 't await_state \<Rightarrow> 't await_state" where
  "Await_run zero f sched s = fold (Await_step zero f) sched s"

text \<open>The result of \<^verbatim>\<open>f.Await(ctx)\<close> under a schedule; \<open>None\<close> while it has not returned.\<close>

definition Await :: "'t \<Rightarrow> 't Future \<Rightarrow> ctx \<Rightarrow> event list \<Rightarrow> 't result option" where
  "Await zero f c sched = returned (Await_run zero f sched (await_init c))"

text \<open>
  The state of a context at the moment the task executes its \<^verbatim>\<open>select\<close>: the cancellations
  of the schedule that come before the first \<open>TaskSelect\<close>, applied to the state at the call.
\<close>

fun ctx_at_select :: "ctx \<Rightarrow> event list \<Rightarrow> ctx" where
  "ctx_at_select c [] = c"
| "ctx_at_select c (CancelScope e # evs) = ctx_at_select (parent_done e c) evs"
| "ctx_at_select c (TaskSelect # evs) = c"
| "ctx_at_select c (ev # evs) = ctx_at_select c evs"

text \<open>
  \<^verbatim>\<open>AwaitWithTimeout\<close> (lines 30-42). The caller's \<^verbatim>\<open>select\<close> has three cases. When the
  caller enters it (\<open>EnterSelect\<close>) the timer is started; a case that is ready is taken at
  once (\<open>pick\<close> decides when several are ready; with \<open>PickTimer\<close> the timer is one of them and
  is the one taken), and otherwise the
  caller blocks (\<open>waiting\<close>) and the first case to become ready is taken: the context
  (line 35), the result (line 37), or the timer, which calls \<^verbatim>\<open>cancel()\<close> on the derived
  context and returns \<^verbatim>\<open>context.DeadlineExceeded\<close> (lines 39-40).
\<close>

definition wake_on_result :: "'t await_state \<Rightarrow> 't await_state" where
  "wake_on_result s =
     (if waiting s \<and> returned s = None
      then (case resultCh s of Delivered r \<Rightarrow> s\<lparr>returned := Some r\<rparr> | _ \<Rightarrow> s)
      else s)"

fun AwaitWithTimeout_step ::
  "'t \<Rightarrow> 't Future \<Rightarrow> event \<Rightarrow> 't await_state \<Rightarrow> 't await_state" where
  "AwaitWithTimeout_step zero f (CancelScope e) s =
     (let s' = s\<lparr>scope := parent_done e (scope s), derived := parent_done e (derived s)\<rparr>
      in if waiting s \<and> returned s = None
         then s'\<lparr>returned := Some \<lparr>Value = zero, Error = scope s'\<rparr>\<rparr>
         else s')"
| "AwaitWithTimeout_step zero f TaskSelect s =
     wake_on_result (s\<lparr>resultCh := task_select zero (derived s) (resultCh s)\<rparr>)"
| "AwaitWithTimeout_step zero f TaskReturn s =
     wake_on_result (s\<lparr>resultCh := task_return f (resultCh s)\<rparr>)"
| "AwaitWithTimeout_step zero f (EnterSelect p) s =
     (if waiting s \<or> returned s \<noteq> None then s
      else if p = PickTimer
      then s\<lparr>derived := cancel (derived s),
             returned := Some \<lparr>Value = zero, Error = Some DeadlineExceeded\<rparr>\<rparr>
      else (case (scope s, resultCh s) of
              (Some e, Delivered r) \<Rightarrow>
                (if p = PickDone
                 then s\<lparr>returned := Some \<lparr>Value = zero, Error = Some e\<rparr>\<rparr>
                 else s\<lparr>returned := Some r\<rparr>)
            | (Some e, _) \<Rightarrow> s\<lparr>returned := Some \<lparr>Value = zero, Error = Some e\<rparr>\<rparr>
            | (None, Delivered r) \<Rightarrow> s\<lparr>returned := Some r\<rparr>
            | (None, _) \<Rightarrow> s\<lparr>waiting := True\<rparr>))"
| "AwaitWithTimeout_step zero f TimerFires s =
     (if waiting s \<and> returned s = None
      then s\<lparr>derived := cancel (derived s),
             returned := Some \<lparr>Value = zero, Error = Some DeadlineExceeded\<rparr>\<rparr>
      else s)"
| "AwaitWithTimeout_step zero f Receive s = s"

definition AwaitWithTimeout_run ::
  "'t \<Rightarrow> 't Future \<Rightarrow> event list \<Rightarrow> 't await_state \<Rightarrow> 't await_state" where
  "AwaitWithTimeout_run zero f sched s = fold (AwaitWithTimeout_step zero f) sched s"

definition AwaitWithTimeout :: "'t \<Rightarrow> 't Future \<Rightarrow> ctx \<Rightarrow> event list \<Rightarrow> 't result option" where
  "AwaitWithTimeout zero f c sched = returned (AwaitWithTimeout_run zero f sched (await_init c))"

section \<open>\<^verbatim>\<open>Then\<close>\<close>

text \<open>
  \<^verbatim>\<open>Then\<close> (lines 69-78) wraps a closure with \<^verbatim>\<open>New\<close>. The closure awaits \<open>f\<close> on \<open>ctx\<close>; the
  schedule of that inner wait is the argument \<open>sched\<close>. \<open>zero\<close> is the zero value of \<open>T\<close> and
  \<open>emptyU\<close> the one of \<open>U\<close> (\<^verbatim>\<open>var empty U\<close>, line 73). \<open>Then_body\<close> is the closure's body; next
  to what the closure returns it lists the arguments with which it has called \<open>mapFn\<close>
  (the parameter \<^verbatim>\<open>fn\<close> of line 69).
\<close>

definition Then_body ::
  "'t \<Rightarrow> 'u \<Rightarrow> 't Future \<Rightarrow> ctx \<Rightarrow> event list \<Rightarrow> ('t \<Rightarrow> ('u \<times> error option) option)
   \<Rightarrow> 't list \<times> ('u \<times> error option) option" where
  "Then_body zero emptyU f c sched mapFn =
     (case Await zero f c sched of
        None \<Rightarrow> ([], None)
      | Some result \<Rightarrow>
          if Error result \<noteq> None then ([], Some (emptyU, Error result))
          else ([Value result], mapFn (Value result)))"

definition Then ::
  "'t \<Rightarrow> 'u \<Rightarrow> 't Future \<Rightarrow> ctx \<Rightarrow> event list \<Rightarrow> ('t \<Rightarrow> ('u \<times> error option) option)
   \<Rightarrow> 'u Future" where
  "Then zero emptyU f c sched mapFn = New (\<lambda>_. snd (Then_body zero emptyU f c sched mapFn))"

section \<open>\<^verbatim>\<open>AllOf\<close>\<close>

text \<open>
  The closures of \<^verbatim>\<open>AllOf\<close> and \<^verbatim>\<open>AnyOf\<close> start one goroutine per future and then wait on a
  channel that all of them share. The events of their schedules:
  \<^item> \<open>CancelParent e\<close>: the caller's context becomes done with error \<open>e\<close>;
  \<^item> \<open>Select k\<close>, \<open>Return k\<close>: the task that \<^verbatim>\<open>Async\<close> dispatched for future \<open>k\<close> executes its
    \<^verbatim>\<open>select\<close>; its \<open>fn\<close> returns;
  \<^item> \<open>Take k\<close>: in \<^verbatim>\<open>AnyOf\<close>, goroutine \<open>k\<close> evaluates \<^verbatim>\<open><-rCh\<close>, the operand of its send case;
  \<^item> \<open>Forward k\<close>: goroutine \<open>k\<close> sends the result of future \<open>k\<close> on the shared channel;
  \<^item> \<open>Cancel k\<close>: in \<^verbatim>\<open>AnyOf\<close>, goroutine \<open>k\<close> calls \<^verbatim>\<open>cancel()\<close> after its send (line 136);
  \<^item> \<open>Quit k\<close>: goroutine \<open>k\<close> takes the case \<^verbatim>\<open><-ctx.Done()\<close> and returns;
  \<^item> \<open>Closure\<close>: the closure itself takes its next step.
  A goroutine that reaches a \<^verbatim>\<open>select\<close> late finds every case ready that became ready in
  between, and Go then picks any of them: so a case may be taken at any moment at which it
  is ready.
\<close>

datatype cevent = CancelParent error | Select nat | Return nat | Take nat | Forward nat
  | Cancel nat | Quit nat | Closure

text \<open>
  The part of the state both closures have: the caller's context, the context derived from
  it (lines 84 and 126), and one task per future. Every call \<^verbatim>\<open>f.Async(ctx)\<close> derives a
  context of its own from the shared one and drops its cancel function, so that context is
  done exactly when the shared one is, with the same error: the tasks read \<open>child\<close>.
\<close>

record 't fanout =
  parent :: ctx
  child :: ctx
  tasks :: "'t task list"

text \<open>
  \<^verbatim>\<open>AllOf\<close> (lines 82-120). A forwarding goroutine (lines 94-105) is \<open>Pending\<close> until its
  \<^verbatim>\<open>select\<close> takes a case: \<open>Sent\<close> after the case of line 97, \<open>Gone\<close> after the case of line
  102. \<open>buffer\<close> is the content of \<^verbatim>\<open>resultCh\<close>, whose capacity \<^verbatim>\<open>len(futures)\<close> is never
  exceeded since every goroutine sends at most once. The closure closes the channel when
  it returns (the deferred call of line 91); a send on a closed channel panics, which
  ends the whole process: once \<open>panicked\<close>, nothing moves.
\<close>

datatype fwd = Pending | Sent | Gone

record 't allof_state = "'t fanout" +
  fwds :: "fwd list"
  buffer :: "(nat \<times> 't result) list"
  closed :: bool
  panicked :: bool
  idx :: nat
  vals :: "'t list"
  ret :: "('t list \<times> error option) option"

definition AllOf_init :: "'t \<Rightarrow> ctx \<Rightarrow> nat \<Rightarrow> 't allof_state" where
  "AllOf_init zero c n =
     \<lparr>parent = c, child = WithCancel c, tasks = replicate n Idle,
      fwds = replicate n Pending, buffer = [], closed = False, panicked = False,
      idx = 0, vals = replicate n zero, ret = None\<rparr>"

text \<open>
  Lines 109-118, one step of the closure. While \<open>i < len(futures)\<close> it receives (and is
  blocked while the channel is empty); a failing result calls \<^verbatim>\<open>cancel()\<close> and returns
  \<^verbatim>\<open>nil\<close> (the empty list) with the error; a successful one is stored at its index. After
  the loop it returns the values. Every return runs the deferred \<^verbatim>\<open>close(resultCh)\<close> and
  \<^verbatim>\<open>cancel()\<close>.
\<close>

definition AllOf_collect :: "nat \<Rightarrow> 't allof_state \<Rightarrow> 't allof_state" where
  "AllOf_collect n s =
     (if ret s \<noteq> None then s
      else if idx s < n then
        (case buffer s of
           [] \<Rightarrow> s
         | (k, r) # rest \<Rightarrow>
             if Error r \<noteq> None
             then s\<lparr>child := cancel (child s), buffer := rest, closed := True,
                    ret := Some ([], Error r)\<rparr>
             else s\<lparr>buffer := rest, idx := idx s + 1, vals := (vals s)[k := Value r]\<rparr>)
      else s\<lparr>child := cancel (child s), closed := True, ret := Some (vals s, None)\<rparr>)"

fun AllOf_event :: "'t \<Rightarrow> 't Future list \<Rightarrow> cevent \<Rightarrow> 't allof_state \<Rightarrow> 't allof_state" where
  "AllOf_event zero fs (CancelParent e) s =
     s\<lparr>parent := parent_done e (parent s), child := parent_done e (child s)\<rparr>"
| "AllOf_event zero fs (Select k) s =
     (if k < length fs
      then s\<lparr>tasks := (tasks s)[k := task_select zero (child s) (tasks s ! k)]\<rparr>
      else s)"
| "AllOf_event zero fs (Return k) s =
     (if k < length fs
      then s\<lparr>tasks := (tasks s)[k := task_return (fs ! k) (tasks s ! k)]\<rparr>
      else s)"
| "AllOf_event zero fs (Forward k) s =
     (if k < length fs \<and> fwds s ! k = Pending
      then (case tasks s ! k of
              Delivered r \<Rightarrow>
                if closed s then s\<lparr>panicked := True\<rparr>
                else s\<lparr>fwds := (fwds s)[k := Sent], buffer := buffer s @ [(k, r)]\<rparr>
            | _ \<Rightarrow> s)
      else s)"
| "AllOf_event zero fs (Quit k) s =
     (if k < length fs \<and> fwds s ! k = Pending \<and> child s \<noteq> None
      then s\<lparr>fwds := (fwds s)[k := Gone]\<rparr>
      else s)"
| "AllOf_event zero fs Closure s = AllOf_collect (length fs) s"
| "AllOf_event zero fs (Take k) s = s"
| "AllOf_event zero fs (Cancel k) s = s"

definition AllOf_step :: "'t \<Rightarrow> 't Future list \<Rightarrow> cevent \<Rightarrow> 't allof_state \<Rightarrow> 't allof_state" where
  "AllOf_step zero fs ev s = (if panicked s then s else AllOf_event zero fs ev s)"

definition AllOf_run ::
  "'t \<Rightarrow> 't Future list \<Rightarrow> cevent list \<Rightarrow> 't allof_state \<Rightarrow> 't allof_state" where
  "AllOf_run zero fs sched s = fold (AllOf_step zero fs) sched s"

text \<open>
  What a run of the closure yields to its caller: what the closure has returned, and
  nothing while it has not returned. A run in which a forwarding goroutine has panicked
  yields nothing either, although the closure has returned before (the channel is closed
  by its return only): the panic ends the process, and no Result of that run is one the
  program can rely on.
\<close>

definition AllOf_outcome :: "'t allof_state \<Rightarrow> ('t list \<times> error option) option" where
  "AllOf_outcome s = (if panicked s then None else ret s)"

text \<open>
  \<^verbatim>\<open>AllOf(ctx, futures...)\<close> is \<^verbatim>\<open>New\<close> of the closure, run under the schedule \<open>sched\<close> of its
  goroutines.
\<close>

definition AllOf :: "'t \<Rightarrow> ctx \<Rightarrow> cevent list \<Rightarrow> 't Future list \<Rightarrow> 't list Future" where
  "AllOf zero c sched futures =
     New (\<lambda>_. AllOf_outcome (AllOf_run zero futures sched (AllOf_init zero c (length futures))))"

section \<open>\<^verbatim>\<open>AnyOf\<close>\<close>

text \<open>
  \<^verbatim>\<open>AnyOf\<close> (lines 124-146). The channel is unbuffered and the closure receives once (line
  143): a send succeeds only while nothing has been received, and \<open>received\<close> is what the
  closure got. Goroutine \<open>k\<close> (lines 132-140) first evaluates \<^verbatim>\<open><-rCh\<close> (\<open>Racing\<close> until it has
  the result, then \<open>Holding r\<close>), then its \<^verbatim>\<open>select\<close> either sends (\<open>Sender\<close>, and \<open>Winner\<close> once
  it has called \<^verbatim>\<open>cancel()\<close>) or takes \<^verbatim>\<open><-ctx.Done()\<close> (\<open>Loser\<close>).
\<close>

datatype 't racer = Racing | Holding "'t result" | Sender | Winner | Loser

record 't anyof_state = "'t fanout" +
  racers :: "'t racer list"
  received :: "'t result option"
  outcome :: "('t \<times> error option) option"

definition AnyOf_init :: "ctx \<Rightarrow> nat \<Rightarrow> 't anyof_state" where
  "AnyOf_init c n =
     \<lparr>parent = c, child = WithCancel c, tasks = replicate n Idle,
      racers = replicate n Racing, received = None, outcome = None\<rparr>"

fun AnyOf_step :: "'t \<Rightarrow> 't Future list \<Rightarrow> cevent \<Rightarrow> 't anyof_state \<Rightarrow> 't anyof_state" where
  "AnyOf_step zero fs (CancelParent e) s =
     s\<lparr>parent := parent_done e (parent s), child := parent_done e (child s)\<rparr>"
| "AnyOf_step zero fs (Select k) s =
     (if k < length fs
      then s\<lparr>tasks := (tasks s)[k := task_select zero (child s) (tasks s ! k)]\<rparr>
      else s)"
| "AnyOf_step zero fs (Return k) s =
     (if k < length fs
      then s\<lparr>tasks := (tasks s)[k := task_return (fs ! k) (tasks s ! k)]\<rparr>
      else s)"
| "AnyOf_step zero fs (Take k) s =
     (if k < length fs \<and> racers s ! k = Racing
      then (case tasks s ! k of
              Delivered r \<Rightarrow> s\<lparr>racers := (racers s)[k := Holding r]\<rparr>
            | _ \<Rightarrow> s)
      else s)"
| "AnyOf_step zero fs (Forward k) s =
     (if k < length fs \<and> received s = None
      then (case racers s ! k of
              Holding r \<Rightarrow> s\<lparr>racers := (racers s)[k := Sender], received := Some r\<rparr>
            | _ \<Rightarrow> s)
      else s)"
| "AnyOf_step zero fs (Cancel k) s =
     (if k < length fs \<and> racers s ! k = Sender
      then s\<lparr>child := cancel (child s), racers := (racers s)[k := Winner]\<rparr>
      else s)"
| "AnyOf_step zero fs (Quit k) s =
     (if k < length fs \<and> child s \<noteq> None
      then (case racers s ! k of
              Holding r \<Rightarrow> s\<lparr>racers := (racers s)[k := Loser]\<rparr>
            | _ \<Rightarrow> s)
      else s)"
| "AnyOf_step zero fs Closure s =
     (case outcome s of
        Some x \<Rightarrow> s
      | None \<Rightarrow>
          (case received s of
             None \<Rightarrow> s
           | Some result \<Rightarrow>
               s\<lparr>child := cancel (child s), outcome := Some (Value result, Error result)\<rparr>))"

definition AnyOf_run ::
  "'t \<Rightarrow> 't Future list \<Rightarrow> cevent list \<Rightarrow> 't anyof_state \<Rightarrow> 't anyof_state" where
  "AnyOf_run zero fs sched s = fold (AnyOf_step zero fs) sched s"

definition AnyOf :: "'t \<Rightarrow> ctx \<Rightarrow> cevent list \<Rightarrow> 't Future list \<Rightarrow> 't Future" where
  "AnyOf zero c sched futures =
     New (\<lambda>_. outcome (AnyOf_run zero futures sched (AnyOf_init c (length futures))))"

section \<open>Invariant of \<^verbatim>\<open>AwaitWithTimeout\<close> before the deadline\<close>


section \<open>Invariants of \<^verbatim>\<open>AllOf\<close>\<close>

text \<open>
  What a task can have delivered: the pair that \<open>fn\<close> returns, or the error of the shared
  context with the zero value.
\<close>

definition delivered_by :: "'t \<Rightarrow> 't Future \<Rightarrow> ctx \<Rightarrow> 't result \<Rightarrow> bool" where
  "delivered_by zero f c r \<longleftrightarrow>
     fn f () = Some (Value r, Error r) \<or>
     (case c of Some e \<Rightarrow> r = \<lparr>Value = zero, Error = Some e\<rparr> | None \<Rightarrow> False)"

text \<open>The indices whose message the closure has taken out of the channel.\<close>

definition collected :: "'t allof_state \<Rightarrow> nat set" where
  "collected s = {k. k < length (fwds s) \<and> fwds s ! k = Sent \<and> k \<notin> fst ` set (buffer s)}"

definition AllOf_shape :: "'t Future list \<Rightarrow> 't allof_state \<Rightarrow> bool" where
  "AllOf_shape fs s \<longleftrightarrow>
     length (tasks s) = length fs \<and> length (fwds s) = length fs \<and>
     length (vals s) = length fs \<and>
     (closed s \<longleftrightarrow> ret s \<noteq> None) \<and> (panicked s \<longrightarrow> closed s) \<and>
     (ret s = None \<longrightarrow> child s = parent s) \<and> (ret s \<noteq> None \<longrightarrow> child s \<noteq> None) \<and>
     (\<forall>k < length fs. fwds s ! k = Gone \<longrightarrow> child s \<noteq> None)"

definition AllOf_channel :: "'t \<Rightarrow> 't Future list \<Rightarrow> 't allof_state \<Rightarrow> bool" where
  "AllOf_channel zero fs s \<longleftrightarrow>
     distinct (map fst (buffer s)) \<and>
     (\<forall>k r. (k, r) \<in> set (buffer s) \<longrightarrow>
        k < length fs \<and> fwds s ! k = Sent \<and> tasks s ! k = Delivered r) \<and>
     (\<forall>k < length fs. \<forall>r. tasks s ! k = Delivered r \<longrightarrow> delivered_by zero (fs ! k) (child s) r)"

definition AllOf_progress :: "'t allof_state \<Rightarrow> bool" where
  "AllOf_progress s \<longleftrightarrow>
     (ret s = None \<longrightarrow>
        idx s = card (collected s) \<and>
        (\<forall>k \<in> collected s.
           \<exists>r. tasks s ! k = Delivered r \<and> Error r = None \<and> vals s ! k = Value r))"

definition AllOf_returned :: "'t \<Rightarrow> 't Future list \<Rightarrow> 't allof_state \<Rightarrow> bool" where
  "AllOf_returned zero fs s \<longleftrightarrow>
     (case ret s of
        None \<Rightarrow> True
      | Some (xs, None) \<Rightarrow>
          length xs = length fs \<and>
          (\<forall>k < length fs. fwds s ! k = Sent \<and>
             (\<exists>r. tasks s ! k = Delivered r \<and> Error r = None \<and> xs ! k = Value r))
      | Some (xs, Some e) \<Rightarrow>
          xs = [] \<and>
          (\<exists>k < length fs. \<exists>r. tasks s ! k = Delivered r \<and> Error r = Some e \<and>
             (fn (fs ! k) () = Some (Value r, Some e) \<or> (parent s = Some e \<and> Value r = zero))))"

definition AllOf_inv :: "'t \<Rightarrow> 't Future list \<Rightarrow> 't allof_state \<Rightarrow> bool" where
  "AllOf_inv zero fs s \<longleftrightarrow>
     AllOf_shape fs s \<and> AllOf_channel zero fs s \<and> AllOf_progress s \<and> AllOf_returned zero fs s"

text \<open>
  How far future \<open>k\<close> has come on its way into the channel: its task has not looked at the
  context (0), \<open>fn\<close> runs (1), the result is delivered to the forwarding goroutine (2), the
  goroutine has sent it on (3).
\<close>

definition AllOf_phase :: "'t allof_state \<Rightarrow> nat \<Rightarrow> nat" where
  "AllOf_phase s k =
     (if fwds s ! k = Sent then 3
      else (case tasks s ! k of Delivered r \<Rightarrow> 2 | Running \<Rightarrow> 1 | Idle \<Rightarrow> 0))"

text \<open>A reachable state in which the caller's context is live and nothing has panicked.\<close>

definition AllOf_live :: "'t \<Rightarrow> 't Future list \<Rightarrow> 't allof_state \<Rightarrow> bool" where
  "AllOf_live zero fs s \<longleftrightarrow> AllOf_inv zero fs s \<and> parent s = None \<and> \<not> panicked s"

text \<open>
  The shared context was done with error \<open>e\<close> before any task looked at it: no task has
  called its \<open>fn\<close>.
\<close>

definition AllOf_dead :: "'t \<Rightarrow> 't Future list \<Rightarrow> error \<Rightarrow> 't allof_state \<Rightarrow> bool" where
  "AllOf_dead zero fs e s \<longleftrightarrow>
     parent s = Some e \<and> child s = Some e \<and> length (tasks s) = length fs \<and>
     (\<forall>k < length fs.
        tasks s ! k = Idle \<or> tasks s ! k = Delivered \<lparr>Value = zero, Error = Some e\<rparr>)"

section \<open>Invariants of \<^verbatim>\<open>AnyOf\<close>\<close>

definition AnyOf_shape :: "'t Future list \<Rightarrow> 't anyof_state \<Rightarrow> bool" where
  "AnyOf_shape fs s \<longleftrightarrow>
     length (tasks s) = length fs \<and> length (racers s) = length fs \<and>
     (received s = None \<longrightarrow>
        outcome s = None \<and> child s = parent s \<and>
        (\<forall>k < length fs. racers s ! k \<noteq> Sender \<and> racers s ! k \<noteq> Winner)) \<and>
     (\<forall>r. received s = Some r \<longrightarrow>
        outcome s = None \<or> outcome s = Some (Value r, Error r)) \<and>
     (outcome s \<noteq> None \<longrightarrow> child s \<noteq> None) \<and>
     (\<forall>k < length fs. racers s ! k = Winner \<longrightarrow> child s \<noteq> None)"

definition AnyOf_links :: "'t \<Rightarrow> 't Future list \<Rightarrow> 't anyof_state \<Rightarrow> bool" where
  "AnyOf_links zero fs s \<longleftrightarrow>
     (\<forall>k < length fs. \<forall>r. racers s ! k = Holding r \<longrightarrow> tasks s ! k = Delivered r) \<and>
     (\<forall>k < length fs. \<forall>r. tasks s ! k = Delivered r \<longrightarrow>
        delivered_by zero (fs ! k) (child s) r)"

text \<open>The goroutine whose send the closure has received, and what it sent.\<close>

definition AnyOf_winner :: "'t Future list \<Rightarrow> 't anyof_state \<Rightarrow> nat \<Rightarrow> 't result \<Rightarrow> bool" where
  "AnyOf_winner fs s k r \<longleftrightarrow>
     k < length fs \<and> (racers s ! k = Sender \<or> racers s ! k = Winner) \<and>
     tasks s ! k = Delivered r \<and> received s = Some r"

definition AnyOf_inv :: "'t \<Rightarrow> 't Future list \<Rightarrow> 't anyof_state \<Rightarrow> bool" where
  "AnyOf_inv zero fs s \<longleftrightarrow>
     AnyOf_shape fs s \<and> AnyOf_links zero fs s \<and>
     (received s \<noteq> None \<longrightarrow> (\<exists>k r. AnyOf_winner fs s k r))"

text \<open>
  How far future \<open>k\<close> has come in the race: its task has not looked at the context (0),
  \<open>fn\<close> runs (1), the result is delivered (2), goroutine \<open>k\<close> holds it in its
  \<^verbatim>\<open>select\<close> (3); and 4 once the closure has received a result, from whichever goroutine.
\<close>

definition AnyOf_phase :: "'t anyof_state \<Rightarrow> nat \<Rightarrow> nat" where
  "AnyOf_phase s k =
     (if received s \<noteq> None then 4
      else (case racers s ! k of
              Holding r \<Rightarrow> 3
            | _ \<Rightarrow> (case tasks s ! k of Delivered r \<Rightarrow> 2 | Running \<Rightarrow> 1 | Idle \<Rightarrow> 0)))"

definition AnyOf_live :: "'t \<Rightarrow> 't Future list \<Rightarrow> 't anyof_state \<Rightarrow> bool" where
  "AnyOf_live zero fs s \<longleftrightarrow>
     AnyOf_inv zero fs s \<and> parent s = None \<and>
     (received s = None \<longrightarrow> (\<forall>k < length fs. racers s ! k \<noteq> Loser))"

section \<open>The invariant of Results: predicates\<close>

text \<open>
  A Result whose error is set carries the zero value; and a wrapped function that, when it
  returns an error, returns the zero value with it.
\<close>

definition zero_on_error :: "'t \<Rightarrow> 't result \<Rightarrow> bool" where
  "zero_on_error zero r \<longleftrightarrow> Error r = None \<or> Value r = zero"

definition fn_zero_on_error :: "'t \<Rightarrow> 't Future \<Rightarrow> bool" where
  "fn_zero_on_error zero f \<longleftrightarrow>
     (case fn f () of Some (v, Some e) \<Rightarrow> v = zero | _ \<Rightarrow> True)"

definition task_zero_on_error :: "'t \<Rightarrow> 't task \<Rightarrow> bool" where
  "task_zero_on_error zero t \<longleftrightarrow>
     (case t of Delivered r \<Rightarrow> zero_on_error zero r | _ \<Rightarrow> True)"

definition returned_zero_on_error :: "'t \<Rightarrow> 't result option \<Rightarrow> bool" where
  "returned_zero_on_error zero x \<longleftrightarrow>
     (case x of Some r \<Rightarrow> zero_on_error zero r | None \<Rightarrow> True)"

section \<open>Properties of \<^verbatim>\<open>Await\<close>\<close>

lemma parent_done_Some [simp]: "parent_done e (Some e') = Some e'"
  by (simp add: parent_done_def)

lemma parent_done_None [simp]: "parent_done e None = Some e"
  by (simp add: parent_done_def)

lemma Await_run_Nil [simp]: "Await_run zero f [] s = s"
  by (simp add: Await_run_def)

lemma Await_run_Cons [simp]:
  "Await_run zero f (ev # sched) s = Await_run zero f sched (Await_step zero f ev s)"
  by (simp add: Await_run_def)

lemma Await_returned_stays:
  "returned s = Some r \<Longrightarrow> returned (Await_run zero f sched s) = Some r"
proof (induction sched arbitrary: s)
  case Nil
  then show ?case by simp
next
  case (Cons ev sched)
  have "returned (Await_step zero f ev s) = Some r"
    using Cons.prems by (cases ev) simp_all
  then show ?case using Cons.IH by simp
qed

lemma Await_delivered:
  "resultCh s = Delivered r \<Longrightarrow> returned s = None \<Longrightarrow>
   returned (Await_run zero f sched s) = (if Receive \<in> set sched then Some r else None)"
proof (induction sched arbitrary: s)
  case Nil
  then show ?case by simp
next
  case (Cons ev sched)
  show ?case
  proof (cases "ev = Receive")
    case True
    then have "returned (Await_step zero f ev s) = Some r"
      using Cons.prems by simp
    then show ?thesis using True by (simp add: Await_returned_stays)
  next
    case False
    have "resultCh (Await_step zero f ev s) = Delivered r"
      using Cons.prems False by (cases ev) (simp_all add: task_select_def task_return_def)
    moreover have "returned (Await_step zero f ev s) = None"
      using Cons.prems False by (cases ev) (simp_all add: task_select_def task_return_def)
    ultimately show ?thesis using Cons.IH False by simp
  qed
qed

lemma Await_running:
  "resultCh s = Running \<Longrightarrow> returned s = None \<Longrightarrow>
   returned (Await_run zero f sched s) =
     (case fn f () of
        None \<Rightarrow> None
      | Some (v, err) \<Rightarrow>
          if subseq [TaskReturn, Receive] sched then Some \<lparr>Value = v, Error = err\<rparr> else None)"
proof (induction sched arbitrary: s)
  case Nil
  then show ?case by (simp split: option.splits)
next
  case (Cons ev sched)
  show ?case
  proof (cases "ev = TaskReturn \<and> fn f () \<noteq> None")
    case True
    then obtain v err where fv: "fn f () = Some (v, err)" by auto
    have "resultCh (Await_step zero f ev s) = Delivered \<lparr>Value = v, Error = err\<rparr>"
      and "returned (Await_step zero f ev s) = None"
      using Cons.prems True fv by (simp_all add: task_return_def)
    then show ?thesis using True fv by (simp add: Await_delivered subseq_singleton_left)
  next
    case False
    have "resultCh (Await_step zero f ev s) = Running"
      using Cons.prems False
      by (cases ev) (auto simp add: task_select_def task_return_def split: option.splits)
    moreover have "returned (Await_step zero f ev s) = None"
      using Cons.prems False by (cases ev) (auto simp add: task_select_def task_return_def)
    ultimately have "returned (Await_run zero f (ev # sched) s) =
      (case fn f () of
        None \<Rightarrow> None
      | Some (v, err) \<Rightarrow>
          if subseq [TaskReturn, Receive] sched then Some \<lparr>Value = v, Error = err\<rparr> else None)"
      using Cons.IH by simp
    then show ?thesis using False
      by (auto split: option.splits)
  qed
qed

lemma Await_idle:
  "resultCh s = Idle \<Longrightarrow> returned s = None \<Longrightarrow>
   returned (Await_run zero f sched s) =
     (case ctx_at_select (derived s) sched of
        Some e \<Rightarrow>
          if subseq [TaskSelect, Receive] sched then Some \<lparr>Value = zero, Error = Some e\<rparr> else None
      | None \<Rightarrow>
          (case fn f () of
             None \<Rightarrow> None
           | Some (v, err) \<Rightarrow>
               if subseq [TaskSelect, TaskReturn, Receive] sched
               then Some \<lparr>Value = v, Error = err\<rparr> else None))"
proof (induction sched arbitrary: s)
  case Nil
  then show ?case by (simp split: option.splits)
next
  case (Cons ev sched)
  show ?case
  proof (cases "ev = TaskSelect")
    case True
    show ?thesis
    proof (cases "derived s")
      case None
      then have "resultCh (Await_step zero f ev s) = Running"
        and "returned (Await_step zero f ev s) = None"
        using Cons.prems True by (simp_all add: task_select_def)
      then show ?thesis using None unfolding True
        by (simp add: Await_running split: option.splits)
    next
      case (Some e)
      then have "resultCh (Await_step zero f ev s) = Delivered \<lparr>Value = zero, Error = Some e\<rparr>"
        and "returned (Await_step zero f ev s) = None"
        using Cons.prems True by (simp_all add: task_select_def)
      then show ?thesis using Some unfolding True
        by (simp add: Await_delivered subseq_singleton_left)
    qed
  next
    case False
    have st1: "resultCh (Await_step zero f ev s) = Idle"
      using Cons.prems False by (cases ev) (simp_all add: task_return_def)
    have st2: "returned (Await_step zero f ev s) = None"
      using Cons.prems False by (cases ev) (simp_all add: task_return_def)
    note st = st1 st2
    have dv: "ctx_at_select (derived (Await_step zero f ev s)) sched
      = ctx_at_select (derived s) (ev # sched)"
      using False Cons.prems by (cases ev) simp_all
    show ?thesis using Cons.IH [OF st] dv False by (simp split: option.splits)
  qed
qed

lemma Await_eq:
  "Await zero f c sched =
     (case ctx_at_select c sched of
        Some e \<Rightarrow>
          if subseq [TaskSelect, Receive] sched then Some \<lparr>Value = zero, Error = Some e\<rparr> else None
      | None \<Rightarrow>
          (case fn f () of
             None \<Rightarrow> None
           | Some (v, err) \<Rightarrow>
               if subseq [TaskSelect, TaskReturn, Receive] sched
               then Some \<lparr>Value = v, Error = err\<rparr> else None))"
  unfolding Await_def
  by (subst Await_idle) (simp_all add: await_init_def Async_def WithCancel_def)

lemma ctx_at_select_live:
  "\<forall>e. CancelScope e \<notin> set sched \<Longrightarrow> ctx_at_select c sched = c"
  by (induction c sched rule: ctx_at_select.induct) auto

text \<open>
  C1. For every computation \<open>f\<close> that returns \<open>(v, nil)\<close> and every scope that is not
  cancelled, \<^verbatim>\<open>New(f).Await(scope)\<close> returns the Result with value \<open>v\<close> and error \<open>nil\<close>: under
  every schedule without a cancellation the call has returned exactly when the task has
  executed its select, \<open>fn\<close> has returned and the caller has received, in this order, and
  what it returns is that Result.
\<close>

theorem Await_success:
  assumes "fn f () = Some (v, None)" and "\<forall>e. CancelScope e \<notin> set sched"
  shows "Await zero f None sched =
    (if subseq [TaskSelect, TaskReturn, Receive] sched
     then Some \<lparr>Value = v, Error = None\<rparr> else None)"
  using assms by (simp add: Await_eq ctx_at_select_live)

theorem Await_success_witness:
  "Await (0::int) (New (\<lambda>_. Some (42, None))) None [TaskSelect, TaskReturn, Receive]
     = Some \<lparr>Value = 42, Error = None\<rparr>"
proof -
  have a: "fn (New (\<lambda>_. Some (42::int, None))) () = Some (42, None)" by simp
  have b: "\<forall>e. CancelScope e \<notin> set [TaskSelect, TaskReturn, Receive]" by simp
  show ?thesis using Await_success [OF a b, of 0] by simp
qed

section \<open>Properties of \<^verbatim>\<open>AwaitWithTimeout\<close>\<close>

lemma cancel_not_None [simp]: "cancel c \<noteq> None"
  by (simp add: cancel_def split: option.splits)

lemma cancel_Some [simp]: "cancel (Some e) = Some e"
  by (simp add: cancel_def)

lemma cancel_None [simp]: "cancel None = Some Canceled"
  by (simp add: cancel_def)

lemma AwaitWithTimeout_run_Nil [simp]: "AwaitWithTimeout_run zero f [] s = s"
  by (simp add: AwaitWithTimeout_run_def)

lemma AwaitWithTimeout_run_Cons [simp]:
  "AwaitWithTimeout_run zero f (ev # sched) s =
   AwaitWithTimeout_run zero f sched (AwaitWithTimeout_step zero f ev s)"
  by (simp add: AwaitWithTimeout_run_def)














section \<open>The outcome of \<^verbatim>\<open>Await\<close> under cancellation\<close>

lemma ctx_at_select_done: "ctx_at_select (Some e) sched = Some e"
  by (induction "Some e :: ctx" sched rule: ctx_at_select.induct) simp_all




section \<open>Properties of \<^verbatim>\<open>Then\<close>\<close>

lemma fn_Then [simp]:
  "fn (Then zero emptyU f c sched mapFn) () = snd (Then_body zero emptyU f c sched mapFn)"
  by (simp add: Then_def)

text \<open>
  C3. Let \<open>r\<close> be the Result of \<open>f\<close> awaited on \<open>scope\<close> inside the closure, and let the future
  that \<^verbatim>\<open>Then\<close> returns be awaited on a scope that is not cancelled. If \<open>r\<close> carries a failure,
  the Result is that failure with the zero value of \<open>U\<close>, and \<open>mapFn\<close> has not been called;
  if \<open>r\<close> is a success, \<open>mapFn\<close> has been called once, on the value of \<open>r\<close>, and the Result is
  the pair it returned, value or failure (and there is none while it has not returned).
\<close>

theorem Then_result:
  assumes "Await zero f c sched = Some r" and "\<forall>e. CancelScope e \<notin> set sched'"
  shows "(Error r \<noteq> None \<longrightarrow>
            fst (Then_body zero emptyU f c sched mapFn) = [] \<and>
            Await emptyU (Then zero emptyU f c sched mapFn) None sched' =
              (if subseq [TaskSelect, TaskReturn, Receive] sched'
               then Some \<lparr>Value = emptyU, Error = Error r\<rparr> else None))
       \<and> (Error r = None \<longrightarrow>
            fst (Then_body zero emptyU f c sched mapFn) = [Value r] \<and>
            Await emptyU (Then zero emptyU f c sched mapFn) None sched' =
              (case mapFn (Value r) of
                 None \<Rightarrow> None
               | Some (u, err) \<Rightarrow>
                   if subseq [TaskSelect, TaskReturn, Receive] sched'
                   then Some \<lparr>Value = u, Error = err\<rparr> else None))"
  using assms
  by (auto simp add: Await_eq [of emptyU] ctx_at_select_live Then_body_def split: option.splits)

theorem Then_result_witness:
  "fst (Then_body (0::int) ''''
        (New (\<lambda>_. Some (0, Some (Failure ''error'')))) None [TaskSelect, TaskReturn, Receive]
        (\<lambda>v. Some (''value'', None))) = []
   \<and> Await '''' (Then (0::int) ''''
        (New (\<lambda>_. Some (0, Some (Failure ''error'')))) None [TaskSelect, TaskReturn, Receive]
        (\<lambda>v. Some (''value'', None))) None [TaskSelect, TaskReturn, Receive]
     = Some \<lparr>Value = '''', Error = Some (Failure ''error'')\<rparr>
   \<and> fst (Then_body (0::int) ''''
        (New (\<lambda>_. Some (42, None))) None [TaskSelect, TaskReturn, Receive]
        (\<lambda>v. Some (''value'', None))) = [42]
   \<and> Await '''' (Then (0::int) ''''
        (New (\<lambda>_. Some (42, None))) None [TaskSelect, TaskReturn, Receive]
        (\<lambda>v. Some (''value'', None))) None [TaskSelect, TaskReturn, Receive]
     = Some \<lparr>Value = ''value'', Error = None\<rparr>"
proof -
  have a: "Await (0::int) (New (\<lambda>_. Some (0, Some (Failure ''error'')))) None
      [TaskSelect, TaskReturn, Receive] = Some \<lparr>Value = 0, Error = Some (Failure ''error'')\<rparr>"
    by (simp add: Await_eq)
  have a': "Await (0::int) (New (\<lambda>_. Some (42, None))) None
      [TaskSelect, TaskReturn, Receive] = Some \<lparr>Value = 42, Error = None\<rparr>"
    by (simp add: Await_eq)
  have b: "\<forall>e. CancelScope e \<notin> set [TaskSelect, TaskReturn, Receive]" by simp
  show ?thesis
    using Then_result [OF a b, of "''''" "\<lambda>v. Some (''value'', None)"]
      Then_result [OF a' b, of "''''" "\<lambda>v. Some (''value'', None)"]
    by simp
qed

section \<open>Properties of \<^verbatim>\<open>AllOf\<close>\<close>

lemma AllOf_run_Nil [simp]: "AllOf_run zero fs [] s = s"
  by (simp add: AllOf_run_def)

lemma AllOf_run_Cons [simp]:
  "AllOf_run zero fs (ev # sched) s = AllOf_run zero fs sched (AllOf_step zero fs ev s)"
  by (simp add: AllOf_run_def)

lemma AllOf_run_append:
  "AllOf_run zero fs (xs @ ys) s = AllOf_run zero fs ys (AllOf_run zero fs xs s)"
  by (simp add: AllOf_run_def)

lemma fn_AllOf [simp]:
  "fn (AllOf zero c sched fs) () =
   AllOf_outcome (AllOf_run zero fs sched (AllOf_init zero c (length fs)))"
  by (simp add: AllOf_def)

lemma AllOf_outcome_Some:
  "AllOf_outcome s = Some x \<longleftrightarrow> \<not> panicked s \<and> ret s = Some x"
  by (simp add: AllOf_outcome_def)

lemma AllOf_step_panicked: "panicked s \<Longrightarrow> AllOf_step zero fs ev s = s"
  by (simp add: AllOf_step_def)

lemma AllOf_run_panicked: "panicked s \<Longrightarrow> AllOf_run zero fs sched s = s"
  by (induction sched) (simp_all add: AllOf_step_panicked)

subsection \<open>No futures\<close>

lemma AllOf_zero_step:
  assumes "vals s = []" and "\<not> panicked s" and "ret s = None \<or> ret s = Some ([], None)"
  shows "vals (AllOf_step zero [] ev s) = [] \<and> \<not> panicked (AllOf_step zero [] ev s) \<and>
    ret (AllOf_step zero [] ev s) = (if ev = Closure then Some ([], None) else ret s)"
  using assms by (cases ev) (auto simp add: AllOf_step_def AllOf_collect_def)

lemma AllOf_zero_run:
  assumes "vals s = []" and "\<not> panicked s" and "ret s = None \<or> ret s = Some ([], None)"
  shows "ret (AllOf_run zero [] sched s) = (if Closure \<in> set sched then Some ([], None) else ret s)"
  using assms
proof (induction sched arbitrary: s)
  case Nil
  then show ?case by simp
next
  case (Cons ev sched)
  note st = AllOf_zero_step [OF Cons.prems, of zero ev]
  have "ret (AllOf_run zero [] sched (AllOf_step zero [] ev s)) =
    (if Closure \<in> set sched then Some ([], None) else ret (AllOf_step zero [] ev s))"
    using st Cons.prems by (intro Cons.IH) auto
  then show ?case using st Cons.prems by auto
qed

lemma AllOf_zero_run_live:
  assumes "vals s = []" and "\<not> panicked s" and "ret s = None \<or> ret s = Some ([], None)"
  shows "\<not> panicked (AllOf_run zero [] sched s)"
  using assms
proof (induction sched arbitrary: s)
  case Nil
  then show ?case by simp
next
  case (Cons ev sched)
  note st = AllOf_zero_step [OF Cons.prems, of zero ev]
  have "\<not> panicked (AllOf_run zero [] sched (AllOf_step zero [] ev s))"
    using st Cons.prems by (intro Cons.IH) auto
  then show ?case by simp
qed

text \<open>
  C10. \<^verbatim>\<open>AllOf(scope)\<close> with no futures: under every schedule and whatever the state of the
  scope, the closure has returned the empty sequence and \<^verbatim>\<open>nil\<close> as soon as it has taken its
  first step; that step returns in every state and waits for nothing (second conjunct).
  Awaited on a scope that is not cancelled, the Result is the empty sequence with no
  error.
\<close>

theorem AllOf_no_futures:
  "fn (AllOf zero c sched []) () = (if Closure \<in> set sched then Some ([], None) else None)
   \<and> (\<not> panicked s \<and> ret s = None \<longrightarrow> ret (AllOf_step zero [] Closure s) = Some (vals s, None))
   \<and> ((\<forall>e. CancelScope e \<notin> set sched') \<and> Closure \<in> set sched \<longrightarrow>
        Await [] (AllOf zero c sched []) None sched' =
          (if subseq [TaskSelect, TaskReturn, Receive] sched'
           then Some \<lparr>Value = [], Error = None\<rparr> else None))"
proof -
  have a: "fn (AllOf zero c sched []) () = (if Closure \<in> set sched then Some ([], None) else None)"
    by (simp add: AllOf_outcome_def AllOf_zero_run AllOf_zero_run_live AllOf_init_def)
  have b: "\<not> panicked s \<and> ret s = None \<longrightarrow> ret (AllOf_step zero [] Closure s) = Some (vals s, None)"
    by (simp add: AllOf_step_def AllOf_collect_def)
  show ?thesis using a b by (simp add: Await_eq ctx_at_select_live)
qed

theorem AllOf_no_futures_witness:
  "Await [] (AllOf (0::int) None [Closure] []) None [TaskSelect, TaskReturn, Receive]
     = Some \<lparr>Value = [], Error = None\<rparr>"
  using AllOf_no_futures [of "0::int" None "[Closure]" "AllOf_init 0 None 0"
      "[TaskSelect, TaskReturn, Receive]"]
  by simp

subsection \<open>The invariant\<close>

lemma collected_finite [simp]: "finite (collected s)"
  by (simp add: collected_def)

lemma collected_bound: "collected s \<subseteq> {..<length (fwds s)}"
  by (auto simp add: collected_def)

lemma task_select_Delivered [simp]: "task_select zero c (Delivered r) = Delivered r"
  by (simp add: task_select_def)

lemma task_return_Delivered [simp]: "task_return f (Delivered r) = Delivered r"
  by (simp add: task_return_def)

lemma task_select_eq_Delivered:
  "task_select zero c t = Delivered r \<longleftrightarrow>
     t = Delivered r \<or> (t = Idle \<and> (\<exists>e. c = Some e \<and> r = \<lparr>Value = zero, Error = Some e\<rparr>))"
  by (auto simp add: task_select_def split: task.splits option.splits)

lemma task_return_eq_Delivered:
  "task_return f t = Delivered r \<longleftrightarrow>
     t = Delivered r \<or> (t = Running \<and> fn f () = Some (Value r, Error r))"
  by (cases r) (auto simp add: task_return_def split: task.splits option.splits)

lemma delivered_by_child:
  "delivered_by zero f c r \<Longrightarrow> (c \<noteq> None \<Longrightarrow> c' = c) \<Longrightarrow> delivered_by zero f c' r"
  by (auto simp add: delivered_by_def split: option.splits)

lemma delivered_by_parent_done:
  "delivered_by zero f c r \<Longrightarrow> delivered_by zero f (parent_done e c) r"
  by (auto simp add: delivered_by_def parent_done_def split: option.splits)

lemma delivered_by_cancel:
  "delivered_by zero f c r \<Longrightarrow> delivered_by zero f (cancel c) r"
  by (auto simp add: delivered_by_def cancel_def split: option.splits)

lemma AllOf_init_inv: "AllOf_inv zero fs (AllOf_init zero c (length fs))"
  by (simp add: AllOf_inv_def AllOf_shape_def AllOf_channel_def AllOf_progress_def
      AllOf_returned_def AllOf_init_def WithCancel_def collected_def)

lemma parent_done_not_None [simp]: "parent_done e c \<noteq> None"
  by (simp add: parent_done_def split: option.splits)

lemma AllOf_shape_event:
  assumes "AllOf_shape fs s" and "\<not> panicked s"
  shows "AllOf_shape fs (AllOf_event zero fs ev s)"
proof (cases ev)
  case (CancelParent e)
  then show ?thesis using assms
    by (cases "parent s"; cases "child s"; auto simp add: AllOf_shape_def)
next
  case Closure
  then show ?thesis using assms
    by (auto simp add: AllOf_shape_def AllOf_collect_def split: list.splits)
next
  case (Forward k)
  then show ?thesis using assms
    by (auto simp add: AllOf_shape_def nth_list_update split: task.splits)
next
  case (Quit k)
  then show ?thesis using assms
    by (auto simp add: AllOf_shape_def nth_list_update)
qed (use assms in \<open>auto simp add: AllOf_shape_def\<close>)

lemma AllOf_shape_lengths:
  "AllOf_shape fs s \<Longrightarrow>
   length (tasks s) = length fs \<and> length (fwds s) = length fs \<and> length (vals s) = length fs"
  by (simp add: AllOf_shape_def)

lemma AllOf_channel_event:
  assumes "AllOf_shape fs s" and "AllOf_channel zero fs s" and "\<not> panicked s"
  shows "AllOf_channel zero fs (AllOf_event zero fs ev s)"
proof -
  note len = AllOf_shape_lengths [OF assms(1)]
  show ?thesis
  proof (cases ev)
    case (CancelParent e)
    then show ?thesis using assms(2)
      by (auto simp add: AllOf_channel_def delivered_by_parent_done)
  next
    case (Select k)
    then show ?thesis using assms(2) len
      by (auto simp add: AllOf_channel_def nth_list_update
          task_select_eq_Delivered delivered_by_def split: option.splits)
  next
    case (Return k)
    then show ?thesis using assms(2) len
      by (auto simp add: AllOf_channel_def nth_list_update
          task_return_eq_Delivered delivered_by_def)
  next
    case (Forward k)
    then show ?thesis using assms(2) len
      by (auto simp add: AllOf_channel_def nth_list_update split: task.splits)
  next
    case (Quit k)
    then show ?thesis using assms(2) len
      by (auto simp add: AllOf_channel_def nth_list_update)
  next
    case Closure
    then show ?thesis using assms(2)
      by (auto simp add: AllOf_channel_def AllOf_collect_def delivered_by_cancel split: list.splits)
  qed (use assms in \<open>auto simp add: AllOf_channel_def\<close>)
qed

lemma collected_Forward:
  assumes "k < length (fwds s)" and "fwds s ! k = Pending"
  shows "collected (s\<lparr>fwds := (fwds s)[k := Sent], buffer := buffer s @ [(k, r)]\<rparr>) = collected s"
  using assms by (auto simp add: collected_def nth_list_update)

lemma collected_Quit:
  assumes "k < length (fwds s)" and "fwds s ! k = Pending"
  shows "collected (s\<lparr>fwds := (fwds s)[k := Gone]\<rparr>) = collected s"
  using assms by (auto simp add: collected_def nth_list_update)

lemma collected_pop:
  assumes "buffer s = (k, r) # rest" and "distinct (map fst (buffer s))"
    and "k < length (fwds s)" and "fwds s ! k = Sent"
  shows "collected (s\<lparr>buffer := rest, idx := i, vals := vs\<rparr>) = insert k (collected s)"
    and "k \<notin> collected s"
  using assms by (auto simp add: collected_def rev_image_eqI)

lemma select_keeps:
  "ts ! j = Delivered r \<Longrightarrow> ts[k := task_select zero c (ts ! k)] ! j = Delivered r"
  by (cases "k < length ts"; cases "j = k"; simp add: list_update_beyond)

lemma return_keeps:
  "ts ! j = Delivered r \<Longrightarrow> ts[k := task_return f (ts ! k)] ! j = Delivered r"
  by (cases "k < length ts"; cases "j = k"; simp add: list_update_beyond)

lemma AllOf_progress_event:
  assumes "AllOf_shape fs s" and "AllOf_channel zero fs s" and "AllOf_progress s"
    and "\<not> panicked s"
  shows "AllOf_progress (AllOf_event zero fs ev s)"
proof (cases "ret s")
  case (Some x)
  then have "ret (AllOf_event zero fs ev s) \<noteq> None"
    by (cases ev) (auto simp add: AllOf_collect_def split: task.splits)
  then show ?thesis by (auto simp add: AllOf_progress_def)
next
  case None
  note len = AllOf_shape_lengths [OF assms(1)]
  have pr: "idx s = card (collected s)"
    "\<And>k. k \<in> collected s \<Longrightarrow>
      \<exists>r. tasks s ! k = Delivered r \<and> Error r = None \<and> vals s ! k = Value r"
    using assms(3) None by (auto simp add: AllOf_progress_def)
  have bound: "\<And>k. k \<in> collected s \<Longrightarrow> k < length fs"
    using len by (auto simp add: collected_def)
  show ?thesis
  proof (cases ev)
    case (CancelParent e)
    then show ?thesis using assms(3) by (simp add: AllOf_progress_def collected_def)
  next
    case (Select k)
    have c: "collected (AllOf_event zero fs ev s) = collected s"
      using Select by (simp add: collected_def)
    have "\<exists>r. tasks (AllOf_event zero fs ev s) ! j = Delivered r \<and> Error r = None
        \<and> vals (AllOf_event zero fs ev s) ! j = Value r" if jc: "j \<in> collected s" for j
    proof -
      obtain r where "tasks s ! j = Delivered r" "Error r = None" "vals s ! j = Value r"
        using pr(2) [OF jc] by auto
      then show ?thesis using Select by (auto simp add: select_keeps)
    qed
    moreover have "idx (AllOf_event zero fs ev s) = idx s"
      using Select by simp
    ultimately show ?thesis using pr(1) unfolding AllOf_progress_def c by simp
  next
    case (Return k)
    have c: "collected (AllOf_event zero fs ev s) = collected s"
      using Return by (simp add: collected_def)
    have "\<exists>r. tasks (AllOf_event zero fs ev s) ! j = Delivered r \<and> Error r = None
        \<and> vals (AllOf_event zero fs ev s) ! j = Value r" if jc: "j \<in> collected s" for j
    proof -
      obtain r where "tasks s ! j = Delivered r" "Error r = None" "vals s ! j = Value r"
        using pr(2) [OF jc] by auto
      then show ?thesis using Return by (auto simp add: return_keeps)
    qed
    moreover have "idx (AllOf_event zero fs ev s) = idx s"
      using Return by simp
    ultimately show ?thesis using pr(1) unfolding AllOf_progress_def c by simp
  next
    case (Forward k)
    show ?thesis
    proof (cases "k < length fs \<and> fwds s ! k = Pending \<and> (\<exists>r. tasks s ! k = Delivered r)")
      case True
      then obtain r where r: "tasks s ! k = Delivered r" by auto
      have nc: "\<not> closed s" using assms(1) None by (simp add: AllOf_shape_def)
      have ev: "AllOf_event zero fs ev s
        = s\<lparr>fwds := (fwds s)[k := Sent], buffer := buffer s @ [(k, r)]\<rparr>"
        using True r nc Forward by simp
      have "collected (AllOf_event zero fs ev s) = collected s"
        unfolding ev using True len by (intro collected_Forward) auto
      then show ?thesis using pr None unfolding AllOf_progress_def ev by auto
    next
      case False
      then have "AllOf_event zero fs ev s = s"
        using Forward by (auto split: task.splits)
      then show ?thesis using assms(3) by simp
    qed
  next
    case (Quit k)
    show ?thesis
    proof (cases "k < length fs \<and> fwds s ! k = Pending \<and> child s \<noteq> None")
      case True
      have ev: "AllOf_event zero fs ev s = s\<lparr>fwds := (fwds s)[k := Gone]\<rparr>"
        using True Quit by simp
      have "collected (AllOf_event zero fs ev s) = collected s"
        unfolding ev using True len by (intro collected_Quit) auto
      then show ?thesis using pr None unfolding AllOf_progress_def ev by auto
    next
      case False
      then have "AllOf_event zero fs ev s = s"
        using Quit by auto
      then show ?thesis using assms(3) by simp
    qed
  next
    case Closure
    show ?thesis
    proof (cases "idx s < length fs \<and> (\<exists>k r rest. buffer s = (k, r) # rest \<and> Error r = None)")
      case True
      then obtain k r rest where b: "buffer s = (k, r) # rest" and e: "Error r = None"
        by auto
      have kin: "k < length fs" "fwds s ! k = Sent" "tasks s ! k = Delivered r"
        and dist: "distinct (map fst (buffer s))"
        using assms(2) b by (auto simp add: AllOf_channel_def)
      have ev: "AllOf_event zero fs ev s
        = s\<lparr>buffer := rest, idx := idx s + 1, vals := (vals s)[k := Value r]\<rparr>"
        using True b e None Closure by (simp add: AllOf_collect_def)
      have kl: "k < length (fwds s)" using kin len by simp
      have c: "collected (AllOf_event zero fs ev s) = insert k (collected s)"
        unfolding ev by (rule collected_pop(1) [OF b dist kl kin(2)])
      have nk: "k \<notin> collected s"
        by (rule collected_pop(2) [OF b dist kl kin(2)])
      have "idx (AllOf_event zero fs ev s) = card (collected (AllOf_event zero fs ev s))"
        unfolding c using nk pr(1) by (simp add: ev)
      moreover have "\<exists>r'. tasks (AllOf_event zero fs ev s) ! j = Delivered r' \<and> Error r' = None
          \<and> vals (AllOf_event zero fs ev s) ! j = Value r'"
        if "j \<in> collected (AllOf_event zero fs ev s)" for j
      proof (cases "j = k")
        case True
        then show ?thesis using kin e len by (simp add: ev)
      next
        case False
        then have "j \<in> collected s" using that c by simp
        then show ?thesis using pr(2) [of j] False by (simp add: ev)
      qed
      ultimately show ?thesis by (simp add: AllOf_progress_def)
    next
      case False
      then have "ret (AllOf_event zero fs ev s) \<noteq> None \<or> AllOf_event zero fs ev s = s"
        using Closure None by (auto simp add: AllOf_collect_def split: list.splits)
      then show ?thesis using assms(3) by (auto simp add: AllOf_progress_def)
    qed
  qed (use assms(3) in simp_all)
qed

lemma AllOf_event_keeps_task:
  "tasks s ! j = Delivered r \<Longrightarrow> tasks (AllOf_event zero fs ev s) ! j = Delivered r"
  by (cases ev) (auto simp add: select_keeps return_keeps AllOf_collect_def
      split: task.splits list.splits)

lemma AllOf_event_keeps_Sent:
  "fwds s ! j = Sent \<Longrightarrow> fwds (AllOf_event zero fs ev s) ! j = Sent"
proof (cases ev)
  case (Forward k)
  assume "fwds s ! j = Sent"
  then show ?thesis using Forward
    by (cases "k < length (fwds s)"; cases "j = k";
        auto simp add: list_update_beyond split: task.splits)
next
  case (Quit k)
  assume "fwds s ! j = Sent"
  then show ?thesis using Quit
    by (cases "k < length (fwds s)"; cases "j = k"; auto simp add: list_update_beyond)
qed (auto simp add: AllOf_collect_def split: list.splits)

lemma AllOf_event_keeps_parent:
  "parent s = Some e \<Longrightarrow> parent (AllOf_event zero fs ev s) = Some e"
  by (cases ev) (auto simp add: AllOf_collect_def split: task.splits list.splits)

lemma AllOf_event_keeps_ret:
  "ret s = Some x \<Longrightarrow> ret (AllOf_event zero fs ev s) = Some x"
  by (cases ev) (auto simp add: AllOf_collect_def split: task.splits list.splits)

lemma AllOf_returned_stable:
  assumes "AllOf_returned zero fs s" and "ret s = Some x"
  shows "AllOf_returned zero fs (AllOf_event zero fs ev s)"
proof -
  obtain xs err where x: "x = (xs, err)" by (cases x)
  note r = AllOf_event_keeps_ret [OF assms(2), of zero fs ev]
  show ?thesis
  proof (cases err)
    case None
    have a: "length xs = length fs"
      and b: "\<And>k. k < length fs \<Longrightarrow> fwds s ! k = Sent \<and>
        (\<exists>r. tasks s ! k = Delivered r \<and> Error r = None \<and> xs ! k = Value r)"
      using assms x None by (auto simp add: AllOf_returned_def)
    have "fwds (AllOf_event zero fs ev s) ! k = Sent \<and>
        (\<exists>r. tasks (AllOf_event zero fs ev s) ! k = Delivered r \<and> Error r = None
          \<and> xs ! k = Value r)" if kn: "k < length fs" for k
    proof -
      obtain r' where "fwds s ! k = Sent" "tasks s ! k = Delivered r'" "Error r' = None"
        "xs ! k = Value r'"
        using b [OF kn] by auto
      then show ?thesis
        by (auto simp add: AllOf_event_keeps_Sent AllOf_event_keeps_task)
    qed
    then show ?thesis using r x None a by (simp add: AllOf_returned_def)
  next
    case (Some e)
    obtain k r' where k: "k < length fs" "tasks s ! k = Delivered r'" "Error r' = Some e"
      "fn (fs ! k) () = Some (Value r', Some e) \<or> (parent s = Some e \<and> Value r' = zero)"
      and xs: "xs = []"
      using assms x Some by (auto simp add: AllOf_returned_def)
    have "tasks (AllOf_event zero fs ev s) ! k = Delivered r'"
      using k(2) by (rule AllOf_event_keeps_task)
    moreover have "fn (fs ! k) () = Some (Value r', Some e) \<or>
        (parent (AllOf_event zero fs ev s) = Some e \<and> Value r' = zero)"
      using k(4) by (auto simp add: AllOf_event_keeps_parent)
    ultimately show ?thesis using r x Some xs k(1,3)
      by (auto simp add: AllOf_returned_def)
  qed
qed

lemma AllOf_event_ret_None:
  "ret s = None \<Longrightarrow> ev \<noteq> Closure \<Longrightarrow> ret (AllOf_event zero fs ev s) = None"
  by (cases ev) (auto split: task.splits)

lemma AllOf_returned_Closure:
  assumes "AllOf_shape fs s" and "AllOf_channel zero fs s" and "AllOf_progress s"
    and "ret s = None"
  shows "AllOf_returned zero fs (AllOf_collect (length fs) s)"
proof (cases "idx s < length fs")
  case True
  show ?thesis
  proof (cases "buffer s")
    case Nil
    then show ?thesis using assms(4) True
      by (simp add: AllOf_collect_def AllOf_returned_def)
  next
    case (Cons m rest)
    obtain k r where m: "m = (k, r)" by (cases m)
    have kin: "k < length fs" "tasks s ! k = Delivered r"
      "delivered_by zero (fs ! k) (child s) r"
      using assms(2) Cons m by (auto simp add: AllOf_channel_def)
    show ?thesis
    proof (cases "Error r")
      case None
      then show ?thesis using assms(4) True Cons m
        by (simp add: AllOf_collect_def AllOf_returned_def)
    next
      case (Some e)
      have "child s = parent s" using assms(1,4) by (simp add: AllOf_shape_def)
      then have "fn (fs ! k) () = Some (Value r, Some e) \<or> (parent s = Some e \<and> Value r = zero)"
        using kin(3) Some by (auto simp add: delivered_by_def split: option.splits)
      then show ?thesis using assms(4) True Cons m Some kin(1,2)
        by (auto simp add: AllOf_collect_def AllOf_returned_def)
    qed
  qed
next
  case False
  note len = AllOf_shape_lengths [OF assms(1)]
  have "card (collected s) = idx s" using assms(3,4) by (simp add: AllOf_progress_def)
  moreover have "collected s \<subseteq> {..<length fs}"
    using collected_bound [of s] len by simp
  moreover have "card (collected s) \<le> card {..<length fs}"
    using \<open>collected s \<subseteq> {..<length fs}\<close> by (intro card_mono) auto
  ultimately have "card (collected s) = card {..<length fs}"
    using False by simp
  then have all: "collected s = {..<length fs}"
    using \<open>collected s \<subseteq> {..<length fs}\<close> by (intro card_subset_eq) auto
  have "fwds s ! k = Sent \<and> (\<exists>r. tasks s ! k = Delivered r \<and> Error r = None \<and> vals s ! k = Value r)"
    if kn: "k < length fs" for k
  proof -
    have kc: "k \<in> collected s" using all kn by simp
    then have "fwds s ! k = Sent" by (simp add: collected_def)
    moreover have "\<exists>r. tasks s ! k = Delivered r \<and> Error r = None \<and> vals s ! k = Value r"
      using assms(3,4) kc by (auto simp add: AllOf_progress_def)
    ultimately show ?thesis by simp
  qed
  then show ?thesis using assms(4) False len
    by (simp add: AllOf_collect_def AllOf_returned_def)
qed

lemma AllOf_returned_event:
  assumes "AllOf_shape fs s" and "AllOf_channel zero fs s" and "AllOf_progress s"
    and "AllOf_returned zero fs s"
  shows "AllOf_returned zero fs (AllOf_event zero fs ev s)"
proof (cases "ret s")
  case (Some x)
  then show ?thesis using assms(4) by (intro AllOf_returned_stable)
next
  case None
  show ?thesis
  proof (cases "ev = Closure")
    case True
    then show ?thesis using AllOf_returned_Closure [OF assms(1,2,3) None] by simp
  next
    case False
    then have "ret (AllOf_event zero fs ev s) = None"
      using None by (intro AllOf_event_ret_None)
    then show ?thesis by (simp add: AllOf_returned_def)
  qed
qed

lemma AllOf_inv_step:
  assumes "AllOf_inv zero fs s"
  shows "AllOf_inv zero fs (AllOf_step zero fs ev s)"
proof (cases "panicked s")
  case True
  then show ?thesis using assms by (simp add: AllOf_step_def)
next
  case False
  then show ?thesis using assms
    by (simp add: AllOf_step_def AllOf_inv_def AllOf_shape_event AllOf_channel_event
        AllOf_progress_event AllOf_returned_event)
qed

lemma AllOf_inv_run:
  "AllOf_inv zero fs s \<Longrightarrow> AllOf_inv zero fs (AllOf_run zero fs sched s)"
  by (induction sched arbitrary: s) (simp_all add: AllOf_inv_step)

lemma AllOf_inv_reachable:
  "AllOf_inv zero fs (AllOf_run zero fs sched (AllOf_init zero c (length fs)))"
  by (intro AllOf_inv_run AllOf_init_inv)

subsection \<open>Every future succeeds\<close>

lemma AllOf_success_values:
  assumes inv: "AllOf_inv zero fs s"
    and len: "length vs = length fs"
    and ok: "\<forall>k < length fs. fn (fs ! k) () = Some (vs ! k, None)"
    and ret: "ret s = Some (xs, None)"
  shows "xs = vs"
proof (rule nth_equalityI)
  have r: "AllOf_returned zero fs s" and ch: "AllOf_channel zero fs s"
    using inv by (simp_all add: AllOf_inv_def)
  show "length xs = length vs"
    using r ret len by (simp add: AllOf_returned_def)
  fix k assume "k < length xs"
  then have kn: "k < length fs" using r ret by (simp add: AllOf_returned_def)
  then obtain r' where r': "tasks s ! k = Delivered r'" "Error r' = None" "xs ! k = Value r'"
    using r ret by (auto simp add: AllOf_returned_def)
  have "delivered_by zero (fs ! k) (child s) r'"
    using ch kn r'(1) by (simp add: AllOf_channel_def)
  then have "fn (fs ! k) () = Some (Value r', Error r')"
    using r'(2) by (auto simp add: delivered_by_def split: option.splits)
  then show "xs ! k = vs ! k" using ok kn r'(3) by simp
qed

lemma AllOf_failure_source:
  assumes inv: "AllOf_inv zero fs s"
    and ok: "\<forall>k < length fs. \<exists>v. fn (fs ! k) () = Some (v, None)"
    and ret: "ret s = Some (xs, Some e)"
  shows "parent s = Some e \<and> xs = []"
proof -
  have "AllOf_returned zero fs s" using inv by (simp add: AllOf_inv_def)
  then obtain k r where k: "k < length fs" "tasks s ! k = Delivered r" "Error r = Some e"
    "fn (fs ! k) () = Some (Value r, Some e) \<or> (parent s = Some e \<and> Value r = zero)"
    and xs: "xs = []"
    using ret by (auto simp add: AllOf_returned_def)
  then show ?thesis using ok by auto
qed

lemma AllOf_live_returned:
  assumes "AllOf_live zero fs s" and "\<forall>k < length fs. \<exists>v. fn (fs ! k) () = Some (v, None)"
    and "ret s \<noteq> None"
  shows "\<forall>k < length fs. fwds s ! k = Sent"
proof -
  obtain xs err where r: "ret s = Some (xs, err)" using assms(3) by auto
  have inv: "AllOf_inv zero fs s" and p: "parent s = None"
    using assms(1) by (simp_all add: AllOf_live_def)
  have "err = None"
  proof (cases err)
    case (Some e)
    then show ?thesis using AllOf_failure_source [OF inv assms(2)] r p by simp
  qed simp
  moreover have "AllOf_returned zero fs s" using inv by (simp add: AllOf_inv_def)
  ultimately show ?thesis using r by (simp add: AllOf_returned_def)
qed

lemma AllOf_live_step:
  assumes "AllOf_live zero fs s" and "\<forall>k < length fs. \<exists>v. fn (fs ! k) () = Some (v, None)"
    and "\<forall>e. ev \<noteq> CancelParent e"
  shows "AllOf_live zero fs (AllOf_step zero fs ev s)"
proof -
  have inv: "AllOf_inv zero fs s" and p: "parent s = None" and np: "\<not> panicked s"
    using assms(1) by (simp_all add: AllOf_live_def)
  have sh: "AllOf_shape fs s" using inv by (simp add: AllOf_inv_def)
  have "parent (AllOf_step zero fs ev s) = None"
    using p assms(3) by (cases ev) (auto simp add: AllOf_step_def AllOf_collect_def
        split: task.splits list.splits)
  moreover have "\<not> panicked (AllOf_step zero fs ev s)"
  proof (cases ev)
    case (Forward k)
    show ?thesis
    proof (cases "closed s")
      case True
      then have "ret s \<noteq> None" using sh by (simp add: AllOf_shape_def)
      then have "\<forall>k < length fs. fwds s ! k = Sent"
        using AllOf_live_returned [OF assms(1,2)] by simp
      then show ?thesis using Forward np by (auto simp add: AllOf_step_def)
    next
      case False
      then show ?thesis using Forward np by (auto simp add: AllOf_step_def split: task.splits)
    qed
  qed (use np in \<open>auto simp add: AllOf_step_def AllOf_collect_def split: list.splits\<close>)
  ultimately show ?thesis using inv by (simp add: AllOf_live_def AllOf_inv_step)
qed

lemma AllOf_live_open:
  assumes "AllOf_live zero fs s" and "ret s = None"
  shows "child s = None" and "\<not> closed s" and "\<not> panicked s"
  using assms by (auto simp add: AllOf_live_def AllOf_inv_def AllOf_shape_def)

lemma AllOf_live_unsent:
  assumes live: "AllOf_live zero fs s"
    and ok: "\<forall>k < length fs. \<exists>v. fn (fs ! k) () = Some (v, None)"
    and k: "k < length fs" and u: "fwds s ! k \<noteq> Sent"
  shows "ret s = None"
proof (rule ccontr)
  assume "ret s \<noteq> None"
  then have "\<forall>k < length fs. fwds s ! k = Sent"
    by (rule AllOf_live_returned [OF live ok])
  then show False using k u by simp
qed

lemma AllOf_phase_eq_3: "AllOf_phase s k = 3 \<longleftrightarrow> fwds s ! k = Sent"
  by (simp add: AllOf_phase_def split: task.splits)

lemma AllOf_phase_le_3: "AllOf_phase s k \<le> 3"
  by (simp add: AllOf_phase_def split: task.splits)

lemma AllOf_phase_mono:
  assumes live: "AllOf_live zero fs s"
    and ok: "\<forall>k < length fs. \<exists>v. fn (fs ! k) () = Some (v, None)"
    and k: "k < length fs"
  shows "AllOf_phase s k \<le> AllOf_phase (AllOf_step zero fs ev s) k"
proof (cases "ret s")
  case (Some x)
  then have "fwds s ! k = Sent"
    using AllOf_live_returned [OF live ok] k by simp
  then have "fwds (AllOf_step zero fs ev s) ! k = Sent"
    by (simp add: AllOf_step_def AllOf_event_keeps_Sent)
  then show ?thesis using AllOf_phase_le_3 [of s k] by (simp add: AllOf_phase_def)
next
  case None
  note o = AllOf_live_open [OF live None]
  have len: "length (tasks s) = length fs" "length (fwds s) = length fs"
    using live by (simp_all add: AllOf_live_def AllOf_inv_def AllOf_shape_def)
  show ?thesis
  proof (cases "fwds s ! k = Sent")
    case True
    then have "fwds (AllOf_step zero fs ev s) ! k = Sent"
      by (simp add: AllOf_step_def AllOf_event_keeps_Sent)
    then show ?thesis using AllOf_phase_le_3 [of s k] by (simp add: AllOf_phase_def)
  next
    case False
    show ?thesis
    proof (cases "tasks s ! k")
      case Idle
      then show ?thesis using False by (simp add: AllOf_phase_def)
    next
      case Running
      have "tasks (AllOf_step zero fs ev s) ! k \<noteq> Idle"
        using Running o len k
        by (cases ev) (auto simp add: AllOf_step_def AllOf_collect_def nth_list_update
            task_select_def task_return_def split: task.splits list.splits option.splits)
      then show ?thesis using Running False
        by (auto simp add: AllOf_phase_def split: task.splits)
    next
      case (Delivered r)
      then have "tasks (AllOf_step zero fs ev s) ! k = Delivered r"
        using o by (simp add: AllOf_step_def AllOf_event_keeps_task)
      then show ?thesis using Delivered False by (simp add: AllOf_phase_def)
    qed
  qed
qed

lemma AllOf_phase_Select:
  assumes live: "AllOf_live zero fs s"
    and ok: "\<forall>k < length fs. \<exists>v. fn (fs ! k) () = Some (v, None)"
    and k: "k < length fs"
  shows "1 \<le> AllOf_phase (AllOf_step zero fs (Select k) s) k"
proof (cases "AllOf_phase s k = 0")
  case False
  then show ?thesis using AllOf_phase_mono [OF live ok k, of "Select k"] by simp
next
  case True
  then have t: "fwds s ! k \<noteq> Sent" "tasks s ! k = Idle"
    by (auto simp add: AllOf_phase_def split: if_splits task.splits)
  then have "ret s = None"
    using AllOf_live_unsent [OF live ok k] by simp
  note o = AllOf_live_open [OF live this]
  have len: "length (tasks s) = length fs"
    using live by (simp_all add: AllOf_live_def AllOf_inv_def AllOf_shape_def)
  have "tasks (AllOf_step zero fs (Select k) s) ! k = Running"
    using t o len k by (simp add: AllOf_step_def task_select_def)
  then show ?thesis by (simp add: AllOf_phase_def)
qed

lemma AllOf_phase_Return:
  assumes live: "AllOf_live zero fs s"
    and ok: "\<forall>k < length fs. \<exists>v. fn (fs ! k) () = Some (v, None)"
    and k: "k < length fs" and p: "1 \<le> AllOf_phase s k"
  shows "2 \<le> AllOf_phase (AllOf_step zero fs (Return k) s) k"
proof (cases "AllOf_phase s k = 1")
  case False
  then show ?thesis using AllOf_phase_mono [OF live ok k, of "Return k"] p by simp
next
  case True
  then have t: "fwds s ! k \<noteq> Sent" "tasks s ! k = Running"
    by (auto simp add: AllOf_phase_def split: if_splits task.splits)
  then have "ret s = None"
    using AllOf_live_unsent [OF live ok k] by simp
  note o = AllOf_live_open [OF live this]
  have len: "length (tasks s) = length fs"
    using live by (simp_all add: AllOf_live_def AllOf_inv_def AllOf_shape_def)
  obtain v where "fn (fs ! k) () = Some (v, None)" using ok k by auto
  then have "tasks (AllOf_step zero fs (Return k) s) ! k = Delivered \<lparr>Value = v, Error = None\<rparr>"
    using t o len k by (simp add: AllOf_step_def task_return_def)
  then show ?thesis by (simp add: AllOf_phase_def)
qed

lemma AllOf_phase_Forward:
  assumes live: "AllOf_live zero fs s"
    and ok: "\<forall>k < length fs. \<exists>v. fn (fs ! k) () = Some (v, None)"
    and k: "k < length fs" and p: "2 \<le> AllOf_phase s k"
  shows "AllOf_phase (AllOf_step zero fs (Forward k) s) k = 3"
proof (cases "AllOf_phase s k = 2")
  case False
  then show ?thesis
    using AllOf_phase_mono [OF live ok k, of "Forward k"] p
      AllOf_phase_le_3 [of "AllOf_step zero fs (Forward k) s" k] by simp
next
  case True
  then obtain r where t: "fwds s ! k \<noteq> Sent" "tasks s ! k = Delivered r"
    by (auto simp add: AllOf_phase_def split: if_splits task.splits)
  then have rn: "ret s = None"
    using AllOf_live_unsent [OF live ok k] by simp
  note o = AllOf_live_open [OF live rn]
  have len: "length (fwds s) = length fs"
    and gone: "fwds s ! k = Gone \<longrightarrow> child s \<noteq> None"
    using live k by (simp_all add: AllOf_live_def AllOf_inv_def AllOf_shape_def)
  have "fwds s ! k = Pending"
    using t(1) gone o(1) by (cases "fwds s ! k") auto
  then have "fwds (AllOf_step zero fs (Forward k) s) ! k = Sent"
    using t o len k by (simp add: AllOf_step_def)
  then show ?thesis by (simp add: AllOf_phase_def)
qed

lemma AllOf_live_run:
  assumes "AllOf_live zero fs s" and "\<forall>k < length fs. \<exists>v. fn (fs ! k) () = Some (v, None)"
    and "\<forall>e. CancelParent e \<notin> set sched"
  shows "AllOf_live zero fs (AllOf_run zero fs sched s)"
  using assms
proof (induction sched arbitrary: s)
  case Nil
  then show ?case by simp
next
  case (Cons ev sched)
  have "AllOf_live zero fs (AllOf_step zero fs ev s)"
    using Cons.prems by (intro AllOf_live_step) auto
  then show ?case using Cons.prems Cons.IH by simp
qed

lemma AllOf_phase_run3:
  assumes "AllOf_live zero fs s" and "\<forall>k < length fs. \<exists>v. fn (fs ! k) () = Some (v, None)"
    and "\<forall>e. CancelParent e \<notin> set sched" and "k < length fs"
    and "AllOf_phase s k = 3"
  shows "AllOf_phase (AllOf_run zero fs sched s) k = 3"
  using assms
proof (induction sched arbitrary: s)
  case Nil
  then show ?case by simp
next
  case (Cons ev sched)
  have l: "AllOf_live zero fs (AllOf_step zero fs ev s)"
    using Cons.prems by (intro AllOf_live_step) auto
  have "AllOf_phase (AllOf_step zero fs ev s) k = 3"
    using AllOf_phase_mono [OF Cons.prems(1,2,4), of ev] Cons.prems(5)
      AllOf_phase_le_3 [of "AllOf_step zero fs ev s" k] by simp
  then show ?case using l Cons.prems Cons.IH by simp
qed

lemma AllOf_phase_run2:
  assumes "AllOf_live zero fs s" and "\<forall>k < length fs. \<exists>v. fn (fs ! k) () = Some (v, None)"
    and "\<forall>e. CancelParent e \<notin> set sched" and "k < length fs"
    and "2 \<le> AllOf_phase s k" and "Forward k \<in> set sched"
  shows "AllOf_phase (AllOf_run zero fs sched s) k = 3"
  using assms
proof (induction sched arbitrary: s)
  case Nil
  then show ?case by simp
next
  case (Cons ev sched)
  have l: "AllOf_live zero fs (AllOf_step zero fs ev s)"
    using Cons.prems by (intro AllOf_live_step) auto
  have nc: "\<forall>e. CancelParent e \<notin> set sched" using Cons.prems(3) by simp
  show ?case
  proof (cases "ev = Forward k")
    case True
    have "AllOf_phase (AllOf_step zero fs ev s) k = 3"
      unfolding True by (rule AllOf_phase_Forward [OF Cons.prems(1,2,4,5)])
    then show ?thesis
      using AllOf_phase_run3 [OF l Cons.prems(2) nc Cons.prems(4)] by simp
  next
    case False
    have "2 \<le> AllOf_phase (AllOf_step zero fs ev s) k"
      using AllOf_phase_mono [OF Cons.prems(1,2,4), of ev] Cons.prems(5) by simp
    moreover have "Forward k \<in> set sched" using Cons.prems(6) False by auto
    ultimately show ?thesis
      using Cons.IH [OF l Cons.prems(2) nc Cons.prems(4)] by simp
  qed
qed

lemma AllOf_phase_run1:
  assumes "AllOf_live zero fs s" and "\<forall>k < length fs. \<exists>v. fn (fs ! k) () = Some (v, None)"
    and "\<forall>e. CancelParent e \<notin> set sched" and "k < length fs"
    and "1 \<le> AllOf_phase s k" and "subseq [Return k, Forward k] sched"
  shows "AllOf_phase (AllOf_run zero fs sched s) k = 3"
  using assms
proof (induction sched arbitrary: s)
  case Nil
  then show ?case by simp
next
  case (Cons ev sched)
  have l: "AllOf_live zero fs (AllOf_step zero fs ev s)"
    using Cons.prems by (intro AllOf_live_step) auto
  have nc: "\<forall>e. CancelParent e \<notin> set sched" using Cons.prems(3) by simp
  show ?case
  proof (cases "ev = Return k")
    case True
    have "2 \<le> AllOf_phase (AllOf_step zero fs ev s) k"
      unfolding True by (rule AllOf_phase_Return [OF Cons.prems(1,2,4,5)])
    moreover have "Forward k \<in> set sched"
      using Cons.prems(6) True by (simp add: subseq_singleton_left)
    ultimately show ?thesis
      using AllOf_phase_run2 [OF l Cons.prems(2) nc Cons.prems(4)] by simp
  next
    case False
    have "1 \<le> AllOf_phase (AllOf_step zero fs ev s) k"
      using AllOf_phase_mono [OF Cons.prems(1,2,4), of ev] Cons.prems(5) by simp
    moreover have "subseq [Return k, Forward k] sched" using Cons.prems(6) False by auto
    ultimately show ?thesis
      using Cons.IH [OF l Cons.prems(2) nc Cons.prems(4)] by simp
  qed
qed

lemma AllOf_phase_run0:
  assumes "AllOf_live zero fs s" and "\<forall>k < length fs. \<exists>v. fn (fs ! k) () = Some (v, None)"
    and "\<forall>e. CancelParent e \<notin> set sched" and "k < length fs"
    and "subseq [Select k, Return k, Forward k] sched"
  shows "AllOf_phase (AllOf_run zero fs sched s) k = 3"
  using assms
proof (induction sched arbitrary: s)
  case Nil
  then show ?case by simp
next
  case (Cons ev sched)
  have l: "AllOf_live zero fs (AllOf_step zero fs ev s)"
    using Cons.prems by (intro AllOf_live_step) auto
  have nc: "\<forall>e. CancelParent e \<notin> set sched" using Cons.prems(3) by simp
  show ?case
  proof (cases "ev = Select k")
    case True
    have "1 \<le> AllOf_phase (AllOf_step zero fs ev s) k"
      unfolding True by (rule AllOf_phase_Select [OF Cons.prems(1,2,4)])
    moreover have "subseq [Return k, Forward k] sched"
      using Cons.prems(5) True by simp
    ultimately show ?thesis
      using AllOf_phase_run1 [OF l Cons.prems(2) nc Cons.prems(4)] by simp
  next
    case False
    have "subseq [Select k, Return k, Forward k] sched" using Cons.prems(5) False by auto
    then show ?thesis
      using Cons.IH [OF l Cons.prems(2) nc Cons.prems(4)] by simp
  qed
qed

lemma AllOf_all_sent_Closure:
  assumes live: "AllOf_live zero fs s"
    and ok: "\<forall>k < length fs. \<exists>v. fn (fs ! k) () = Some (v, None)"
    and sent: "\<forall>k < length fs. fwds s ! k = Sent" and rn: "ret s = None"
  shows "if idx s < length fs
    then ret (AllOf_step zero fs Closure s) = None \<and> idx (AllOf_step zero fs Closure s) = Suc (idx s)
    else ret (AllOf_step zero fs Closure s) \<noteq> None"
proof (cases "idx s < length fs")
  case False
  then show ?thesis using rn AllOf_live_open [OF live rn]
    by (simp add: AllOf_step_def AllOf_collect_def)
next
  case True
  note o = AllOf_live_open [OF live rn]
  have inv: "AllOf_inv zero fs s" using live by (simp add: AllOf_live_def)
  have len: "length (fwds s) = length fs"
    and ch: "AllOf_channel zero fs s" and pr: "idx s = card (collected s)"
    using inv rn by (simp_all add: AllOf_inv_def AllOf_shape_def AllOf_progress_def)
  have "buffer s \<noteq> []"
  proof
    assume "buffer s = []"
    then have "collected s = {..<length fs}"
      using sent len by (auto simp add: collected_def)
    then show False using pr True by simp
  qed
  then obtain k r rest where b: "buffer s = (k, r) # rest"
    by (cases "buffer s") auto
  have kin: "k < length fs" "tasks s ! k = Delivered r"
    using ch b by (auto simp add: AllOf_channel_def)
  then have "delivered_by zero (fs ! k) (child s) r"
    using ch by (simp add: AllOf_channel_def)
  then have "fn (fs ! k) () = Some (Value r, Error r)"
    using o(1) by (simp add: delivered_by_def)
  then have "Error r = None" using ok kin(1) by auto
  then show ?thesis using True rn o b
    by (simp add: AllOf_step_def AllOf_collect_def)
qed

lemma AllOf_step_fwds_Closure [simp]: "fwds (AllOf_step zero fs Closure s) = fwds s"
  by (simp add: AllOf_step_def AllOf_collect_def split: list.splits)

lemma AllOf_step_keeps_ret:
  "ret s = Some x \<Longrightarrow> ret (AllOf_step zero fs ev s) = Some x"
  by (simp add: AllOf_step_def AllOf_event_keeps_ret)

lemma AllOf_run_keeps_ret:
  "ret s = Some x \<Longrightarrow> ret (AllOf_run zero fs sched s) = Some x"
  by (induction sched arbitrary: s) (simp_all add: AllOf_step_keeps_ret)

lemma AllOf_collect_all:
  assumes "AllOf_live zero fs s"
    and "\<forall>k < length fs. \<exists>v. fn (fs ! k) () = Some (v, None)"
    and "\<forall>k < length fs. fwds s ! k = Sent"
    and "ret s = None \<longrightarrow> length fs - idx s < m"
  shows "ret (AllOf_run zero fs (replicate m Closure) s) \<noteq> None"
  using assms
proof (induction m arbitrary: s)
  case 0
  then show ?case by simp
next
  case (Suc m)
  show ?case
  proof (cases "ret s")
    case (Some x)
    then have "ret (AllOf_run zero fs (replicate (Suc m) Closure) s) = Some x"
      by (rule AllOf_run_keeps_ret)
    then show ?thesis by simp
  next
    case None
    let ?s = "AllOf_step zero fs Closure s"
    note c = AllOf_all_sent_Closure [OF Suc.prems(1,2,3) None]
    have l: "AllOf_live zero fs ?s"
      using Suc.prems by (intro AllOf_live_step) auto
    have sent: "\<forall>k < length fs. fwds ?s ! k = Sent"
      using Suc.prems(3) by simp
    have "ret ?s = None \<longrightarrow> length fs - idx ?s < m"
      using c Suc.prems(4) None by (auto split: if_splits)
    then have "ret (AllOf_run zero fs (replicate m Closure) ?s) \<noteq> None"
      by (rule Suc.IH [OF l Suc.prems(2) sent])
    then show ?thesis by simp
  qed
qed

lemma AllOf_init_live: "AllOf_live zero fs (AllOf_init zero None (length fs))"
  by (simp add: AllOf_live_def AllOf_init_inv) (simp add: AllOf_init_def)

text \<open>
  C4. Let every future succeed, future \<open>k\<close> with value \<open>vs ! k\<close>. Under every schedule and
  for every state of the scope, a successful return of the closure of \<^verbatim>\<open>AllOf\<close> carries
  exactly \<open>vs\<close>, in input order. And the closure does return it when the scope is not
  cancelled: in whatever order and interleaving the tasks select, return and forward
  (\<open>sched\<close> is any schedule in which each of them does), the closure then collects
  \<open>len(futures)\<close> results and returns \<open>vs\<close>; awaited on a scope that is not cancelled, the
  Result is \<open>vs\<close> with no error.
\<close>

theorem AllOf_ordered:
  assumes "length vs = length fs"
    and "\<forall>k < length fs. fn (fs ! k) () = Some (vs ! k, None)"
  shows "(fn (AllOf zero c sched fs) () = Some (xs, None) \<longrightarrow> xs = vs) \<and>
    ((\<forall>e. CancelParent e \<notin> set sched) \<and>
     (\<forall>k < length fs. subseq [Select k, Return k, Forward k] sched) \<and>
     (\<forall>e. CancelScope e \<notin> set sched') \<longrightarrow>
       fn (AllOf zero None (sched @ replicate (Suc (length fs)) Closure) fs) () = Some (vs, None) \<and>
       Await [] (AllOf zero None (sched @ replicate (Suc (length fs)) Closure) fs) None sched' =
         (if subseq [TaskSelect, TaskReturn, Receive] sched'
          then Some \<lparr>Value = vs, Error = None\<rparr> else None))"
proof (intro conjI impI)
  assume "fn (AllOf zero c sched fs) () = Some (xs, None)"
  then show "xs = vs"
    using AllOf_success_values [OF AllOf_inv_reachable assms, of zero sched c xs]
    by (simp add: AllOf_outcome_Some)
next
  assume h: "(\<forall>e. CancelParent e \<notin> set sched) \<and>
     (\<forall>k < length fs. subseq [Select k, Return k, Forward k] sched) \<and>
     (\<forall>e. CancelScope e \<notin> set sched')"
  have ok: "\<forall>k < length fs. \<exists>v. fn (fs ! k) () = Some (v, None)"
    using assms(2) by auto
  let ?s = "AllOf_run zero fs sched (AllOf_init zero None (length fs))"
  let ?t = "AllOf_run zero fs (replicate (Suc (length fs)) Closure) ?s"
  have l: "AllOf_live zero fs ?s"
    using h ok by (intro AllOf_live_run AllOf_init_live) auto
  have "AllOf_phase ?s k = 3" if "k < length fs" for k
    using h ok that by (intro AllOf_phase_run0 AllOf_init_live) auto
  then have sent: "\<forall>k < length fs. fwds ?s ! k = Sent"
    by (simp add: AllOf_phase_eq_3)
  have "ret ?t \<noteq> None"
    by (rule AllOf_collect_all [OF l ok sent]) (simp add: less_Suc_eq_le)
  then obtain ys err where r: "ret ?t = Some (ys, err)" by auto
  have lt: "AllOf_live zero fs ?t"
    by (rule AllOf_live_run [OF l ok]) simp
  then have inv: "AllOf_inv zero fs ?t" and p: "parent ?t = None" and np: "\<not> panicked ?t"
    by (simp_all add: AllOf_live_def)
  have "err = None"
  proof (cases err)
    case (Some e)
    then show ?thesis using AllOf_failure_source [OF inv ok] r p by simp
  qed simp
  then have "ys = vs"
    using AllOf_success_values [OF inv assms] r by simp
  then show f: "fn (AllOf zero None (sched @ replicate (Suc (length fs)) Closure) fs) () = Some (vs, None)"
    using r np \<open>err = None\<close> by (simp add: AllOf_run_append AllOf_outcome_def)
  show "Await [] (AllOf zero None (sched @ replicate (Suc (length fs)) Closure) fs) None sched' =
         (if subseq [TaskSelect, TaskReturn, Receive] sched'
          then Some \<lparr>Value = vs, Error = None\<rparr> else None)"
    using f h by (simp add: Await_eq ctx_at_select_live del: fn_AllOf)
qed

theorem AllOf_ordered_witness:
  "fn (AllOf (0::int) None
        ([Select 2, Return 2, Forward 2, Select 1, Return 1, Forward 1,
          Select 0, Return 0, Forward 0] @ replicate (Suc 3) Closure)
        [New (\<lambda>_. Some (1, None)), New (\<lambda>_. Some (2, None)), New (\<lambda>_. Some (3, None))]) ()
     = Some ([1, 2, 3], None)"
proof -
  let ?fs = "[New (\<lambda>_. Some (1::int, None)), New (\<lambda>_. Some (2, None)), New (\<lambda>_. Some (3, None))]"
  let ?sched = "[Select 2, Return 2, Forward 2, Select 1, Return 1, Forward 1,
          Select 0, Return 0, Forward 0]"
  have a: "length [1, 2, 3 :: int] = length ?fs" by simp
  have b: "\<forall>k < length ?fs. fn (?fs ! k) () = Some ([1, 2, 3] ! k, None)"
    by (auto simp add: less_Suc_eq)
  have c: "\<forall>e. CancelParent e \<notin> set ?sched" by simp
  have d: "\<forall>k < length ?fs. subseq [Select k, Return k, Forward k] ?sched"
    by (auto simp add: less_Suc_eq)
  have e: "\<forall>e. CancelScope e \<notin> set [TaskSelect, TaskReturn, Receive]" by simp
  have l: "Suc (length ?fs) = Suc 3" by simp
  note t = AllOf_ordered [OF a b, of 0 None ?sched "[]" "[TaskSelect, TaskReturn, Receive]",
      unfolded l]
  show ?thesis using t c d e by blast
qed

subsection \<open>Failures and cancellation\<close>

lemma AllOf_event_keeps_child:
  "child s = Some e \<Longrightarrow> child (AllOf_event zero fs ev s) = Some e"
  by (cases ev) (auto simp add: AllOf_collect_def split: task.splits list.splits)

lemma AllOf_step_keeps_child:
  "child s = Some e \<Longrightarrow> child (AllOf_step zero fs ev s) = Some e"
  by (simp add: AllOf_step_def AllOf_event_keeps_child)

lemma AllOf_run_keeps_child:
  "child s = Some e \<Longrightarrow> child (AllOf_run zero fs sched s) = Some e"
  by (induction sched arbitrary: s) (simp_all add: AllOf_step_keeps_child)

text \<open>
  What the loop does with a failing Result. In a reachable state in which the loop receives
  one (all Results received before were successes, or the loop would have returned), the
  step of the closure calls \<^verbatim>\<open>cancel()\<close> on the child context, returns \<^verbatim>\<open>nil\<close> with that
  failure and closes the channel; the messages still in the channel stay there, and a
  sibling task that has not started delivers the context's error instead of calling its
  \<open>fn\<close>. The values are returned only when every future has delivered a success, and a
  failure is returned with no values.
\<close>

lemma AllOf_failure_step:
  assumes "s = AllOf_run zero fs sched (AllOf_init zero c (length fs))"
  shows "(\<not> panicked s \<and> ret s = None \<and> idx s < length fs \<and> buffer s = (k, r) # rest \<and>
     Error r = Some e \<longrightarrow>
       ret (AllOf_step zero fs Closure s) = Some ([], Some e) \<and>
       child (AllOf_step zero fs Closure s) = cancel (child s) \<and>
       closed (AllOf_step zero fs Closure s) \<and>
       buffer (AllOf_step zero fs Closure s) = rest \<and>
       (\<forall>j < length fs. tasks s ! j = Idle \<longrightarrow>
          tasks (AllOf_step zero fs (Select j) (AllOf_step zero fs Closure s)) ! j
            = Delivered \<lparr>Value = zero, Error = cancel (child s)\<rparr>)) \<and>
    (ret s = Some (xs, None) \<longrightarrow>
       length xs = length fs \<and>
       (\<forall>j < length fs. \<exists>r'. tasks s ! j = Delivered r' \<and> Error r' = None \<and> xs ! j = Value r')) \<and>
    (ret s = Some (xs, Some e') \<longrightarrow>
       xs = [] \<and> child s \<noteq> None \<and>
       (\<exists>j < length fs. \<exists>r'. tasks s ! j = Delivered r' \<and> Error r' = Some e'))"
proof -
  have inv: "AllOf_inv zero fs s"
    unfolding assms by (rule AllOf_inv_reachable)
  then have sh: "AllOf_shape fs s" and re: "AllOf_returned zero fs s"
    by (simp_all add: AllOf_inv_def)
  have len: "length (tasks s) = length fs" using sh by (simp add: AllOf_shape_def)
  have b: "ret (AllOf_step zero fs Closure s) = Some ([], Some e) \<and>
       child (AllOf_step zero fs Closure s) = cancel (child s) \<and>
       closed (AllOf_step zero fs Closure s) \<and>
       buffer (AllOf_step zero fs Closure s) = rest \<and>
       (\<forall>j < length fs. tasks s ! j = Idle \<longrightarrow>
          tasks (AllOf_step zero fs (Select j) (AllOf_step zero fs Closure s)) ! j
            = Delivered \<lparr>Value = zero, Error = cancel (child s)\<rparr>)"
    if h: "\<not> panicked s \<and> ret s = None \<and> idx s < length fs \<and> buffer s = (k, r) # rest \<and>
      Error r = Some e"
  proof -
    let ?s = "AllOf_step zero fs Closure s"
    have st: "?s = s\<lparr>child := cancel (child s), buffer := rest, closed := True,
        ret := Some ([], Some e)\<rparr>"
      using h by (simp add: AllOf_step_def AllOf_collect_def)
    obtain e0 where e0: "cancel (child s) = Some e0"
      by (cases "cancel (child s)") simp_all
    have "tasks (AllOf_step zero fs (Select j) ?s) ! j
        = Delivered \<lparr>Value = zero, Error = cancel (child s)\<rparr>"
      if "j < length fs" "tasks s ! j = Idle" for j
      using that h len e0 unfolding st by (simp add: AllOf_step_def task_select_def)
    then show ?thesis by (simp add: st)
  qed
  have c: "length xs = length fs \<and>
       (\<forall>j < length fs. \<exists>r'. tasks s ! j = Delivered r' \<and> Error r' = None \<and> xs ! j = Value r')"
    if "ret s = Some (xs, None)"
    using re that by (simp add: AllOf_returned_def)
  have d: "xs = [] \<and> child s \<noteq> None \<and>
       (\<exists>j < length fs. \<exists>r'. tasks s ! j = Delivered r' \<and> Error r' = Some e')"
    if r: "ret s = Some (xs, Some e')"
  proof -
    have "child s \<noteq> None" using sh r by (simp add: AllOf_shape_def)
    moreover obtain j r' where "j < length fs" "tasks s ! j = Delivered r'" "Error r' = Some e'"
      "fn (fs ! j) () = Some (Value r', Some e') \<or> (parent s = Some e' \<and> Value r' = zero)"
      and "xs = []"
      using re r by (auto simp add: AllOf_returned_def)
    ultimately show ?thesis by auto
  qed
  show ?thesis using b c d by blast
qed

text \<open>
  C5 does not hold of the code: the results not yet collected are not discarded. The
  return of the closure runs the deferred \<^verbatim>\<open>close(resultCh)\<close> of line 91 while the goroutines
  of the siblings are still at their \<^verbatim>\<open>select\<close>; one of them that takes the case of its
  result (line 97) then sends on the closed channel (lines 98-101), which panics and ends
  the process. The run below is \<^verbatim>\<open>AllOf(ctx, goodFuture, errorFuture)\<close> of
  \<^verbatim>\<open>Test_Future_AllOf_Error\<close> on a scope that is not cancelled: both tasks deliver; the
  goroutine of \<^verbatim>\<open>errorFuture\<close> forwards; the closure receives the failure, cancels the child
  context, returns \<^verbatim>\<open>nil\<close> with the failure and closes the channel, the goroutine of
  \<^verbatim>\<open>goodFuture\<close> still pending; that goroutine forwards and panics. From then on, whatever
  is scheduled, the run yields no Result.
\<close>

theorem AllOf_failure_panic:
  "ret (AllOf_run (0::int)
      [New (\<lambda>_. Some (1, None)), New (\<lambda>_. Some (0, Some (Failure ''something went wrong'')))]
      [Select 0, Return 0, Select 1, Return 1, Forward 1, Closure] (AllOf_init 0 None 2))
     = Some ([], Some (Failure ''something went wrong''))
   \<and> child (AllOf_run (0::int)
      [New (\<lambda>_. Some (1, None)), New (\<lambda>_. Some (0, Some (Failure ''something went wrong'')))]
      [Select 0, Return 0, Select 1, Return 1, Forward 1, Closure] (AllOf_init 0 None 2))
     = Some Canceled
   \<and> closed (AllOf_run (0::int)
      [New (\<lambda>_. Some (1, None)), New (\<lambda>_. Some (0, Some (Failure ''something went wrong'')))]
      [Select 0, Return 0, Select 1, Return 1, Forward 1, Closure] (AllOf_init 0 None 2))
   \<and> fwds (AllOf_run (0::int)
      [New (\<lambda>_. Some (1, None)), New (\<lambda>_. Some (0, Some (Failure ''something went wrong'')))]
      [Select 0, Return 0, Select 1, Return 1, Forward 1, Closure] (AllOf_init 0 None 2))
     = [Pending, Sent]
   \<and> panicked (AllOf_run (0::int)
      [New (\<lambda>_. Some (1, None)), New (\<lambda>_. Some (0, Some (Failure ''something went wrong'')))]
      [Select 0, Return 0, Select 1, Return 1, Forward 1, Closure, Forward 0]
      (AllOf_init 0 None 2))
   \<and> fn (AllOf (0::int) None
      ([Select 0, Return 0, Select 1, Return 1, Forward 1, Closure, Forward 0] @ sched)
      [New (\<lambda>_. Some (1, None)), New (\<lambda>_. Some (0, Some (Failure ''something went wrong'')))]) ()
     = None"
proof -
  let ?fs = "[New (\<lambda>_. Some (1::int, None)),
    New (\<lambda>_. Some (0, Some (Failure ''something went wrong'')))]"
  let ?s = "AllOf_run 0 ?fs [Select 0, Return 0, Select 1, Return 1, Forward 1, Closure]
    (AllOf_init 0 None 2)"
  let ?t = "AllOf_run 0 ?fs [Select 0, Return 0, Select 1, Return 1, Forward 1, Closure, Forward 0]
    (AllOf_init 0 None 2)"
  have s: "?s = \<lparr>parent = None, child = Some Canceled,
      tasks = [Delivered \<lparr>Value = 1, Error = None\<rparr>,
               Delivered \<lparr>Value = 0, Error = Some (Failure ''something went wrong'')\<rparr>],
      fwds = [Pending, Sent], buffer = [], closed = True, panicked = False, idx = 0,
      vals = [0, 0], ret = Some ([], Some (Failure ''something went wrong''))\<rparr>"
    by (simp add: AllOf_step_def AllOf_init_def AllOf_collect_def task_select_def
        task_return_def WithCancel_def numeral_2_eq_2)
  have p: "panicked ?t"
    by (simp add: AllOf_step_def AllOf_init_def AllOf_collect_def task_select_def
        task_return_def WithCancel_def numeral_2_eq_2)
  have len2: "length ?fs = 2" by simp
  have "AllOf_run 0 ?fs sched ?t = ?t"
    using p by (rule AllOf_run_panicked)
  then have "panicked (AllOf_run 0 ?fs
      ([Select 0, Return 0, Select 1, Return 1, Forward 1, Closure, Forward 0] @ sched)
      (AllOf_init 0 None (length ?fs)))"
    using p unfolding len2 by (simp only: AllOf_run_append)
  then have f: "fn (AllOf 0 None
      ([Select 0, Return 0, Select 1, Return 1, Forward 1, Closure, Forward 0] @ sched) ?fs) ()
     = None"
    by (simp only: fn_AllOf AllOf_outcome_def if_True)
  show ?thesis using s p f by (simp del: fn_AllOf AllOf_run_Cons)
qed

lemma AllOf_dead_event:
  assumes "AllOf_dead zero fs e s"
  shows "AllOf_dead zero fs e (AllOf_event zero fs ev s)"
proof (cases ev)
  case (Select k)
  then show ?thesis using assms
    by (auto simp add: AllOf_dead_def nth_list_update task_select_def)
next
  case (Return k)
  then show ?thesis using assms
    by (auto simp add: AllOf_dead_def nth_list_update task_return_def)
next
  case Closure
  then show ?thesis using assms
    by (auto simp add: AllOf_dead_def AllOf_collect_def split: list.splits)
qed (use assms in \<open>auto simp add: AllOf_dead_def split: task.splits\<close>)

lemma AllOf_dead_run:
  "AllOf_dead zero fs e s \<Longrightarrow> AllOf_dead zero fs e (AllOf_run zero fs sched s)"
proof (induction sched arbitrary: s)
  case Nil
  then show ?case by simp
next
  case (Cons ev sched)
  have "AllOf_dead zero fs e (AllOf_step zero fs ev s)"
    using Cons.prems by (simp add: AllOf_step_def AllOf_dead_event)
  then show ?case using Cons.IH by simp
qed

lemma AllOf_dead_init: "AllOf_dead zero fs e (AllOf_init zero (Some e) (length fs))"
  by (simp add: AllOf_dead_def AllOf_init_def WithCancel_def)

text \<open>
  What a failure that the closure returns can be: it comes with no values and is the
  failure of one of the futures or the error of the caller's scope, which is then
  cancelled. When the scope is already cancelled as the closure starts and there is a
  future, the closure returns nothing but that cancellation failure, if it returns. And
  \<^verbatim>\<open>Await\<close> on the cancelled scope returns the cancellation failure without running the
  closure at all.
\<close>

lemma AllOf_failure_origin:
  "(fn (AllOf zero c sched fs) () = Some (xs, Some e) \<longrightarrow>
      xs = [] \<and>
      ((\<exists>k < length fs. \<exists>v. fn (fs ! k) () = Some (v, Some e)) \<or>
       parent (AllOf_run zero fs sched (AllOf_init zero c (length fs))) = Some e)) \<and>
   (fs \<noteq> [] \<and> fn (AllOf zero (Some e') sched fs) () = Some x \<longrightarrow> x = ([], Some e')) \<and>
   Await [] (AllOf zero c sched fs) (Some e') sched' =
     (if subseq [TaskSelect, Receive] sched'
      then Some \<lparr>Value = [], Error = Some e'\<rparr> else None)"
proof -
  have a: "xs = [] \<and>
      ((\<exists>k < length fs. \<exists>v. fn (fs ! k) () = Some (v, Some e)) \<or>
       parent (AllOf_run zero fs sched (AllOf_init zero c (length fs))) = Some e)"
    if f: "fn (AllOf zero c sched fs) () = Some (xs, Some e)"
  proof -
    let ?s = "AllOf_run zero fs sched (AllOf_init zero c (length fs))"
    have r: "ret ?s = Some (xs, Some e)" using f by (simp add: AllOf_outcome_Some)
    have "AllOf_returned zero fs ?s"
      using AllOf_inv_reachable [of zero fs sched c] by (simp add: AllOf_inv_def)
    then obtain k r' where "k < length fs" "tasks ?s ! k = Delivered r'" "Error r' = Some e"
      "fn (fs ! k) () = Some (Value r', Some e) \<or> (parent ?s = Some e \<and> Value r' = zero)"
      and "xs = []"
      using r by (auto simp add: AllOf_returned_def)
    then show ?thesis by auto
  qed
  have b: "x = ([], Some e')"
    if h: "fs \<noteq> [] \<and> fn (AllOf zero (Some e') sched fs) () = Some x"
  proof -
    let ?s = "AllOf_run zero fs sched (AllOf_init zero (Some e') (length fs))"
    obtain ys err where x: "x = (ys, err)" by (cases x)
    have r: "ret ?s = Some (ys, err)" using h x by (simp add: AllOf_outcome_Some)
    have re: "AllOf_returned zero fs ?s"
      using AllOf_inv_reachable [of zero fs sched "Some e'"] by (simp add: AllOf_inv_def)
    have dead: "AllOf_dead zero fs e' ?s"
      by (intro AllOf_dead_run AllOf_dead_init)
    have t: "Error r' = Some e'" if k: "k < length fs" "tasks ?s ! k = Delivered r'" for k r'
    proof -
      have "tasks ?s ! k = Idle \<or> tasks ?s ! k = Delivered \<lparr>Value = zero, Error = Some e'\<rparr>"
        using dead k(1) by (simp add: AllOf_dead_def)
      then show ?thesis using k(2) by auto
    qed
    show ?thesis
    proof (cases err)
      case None
      have "0 < length fs" using h by simp
      then obtain r' where "tasks ?s ! 0 = Delivered r'" "Error r' = None"
        using re r None by (auto simp add: AllOf_returned_def)
      then show ?thesis using t [of 0 r'] \<open>0 < length fs\<close> by simp
    next
      case (Some e)
      obtain k r' where "k < length fs" "tasks ?s ! k = Delivered r'" "Error r' = Some e"
        "fn (fs ! k) () = Some (Value r', Some e) \<or> (parent ?s = Some e \<and> Value r' = zero)"
        and "ys = []"
        using re r Some by (auto simp add: AllOf_returned_def)
      then show ?thesis using t [of k r'] x Some by simp
    qed
  qed
  have c: "Await [] (AllOf zero c sched fs) (Some e') sched' =
     (if subseq [TaskSelect, Receive] sched'
      then Some \<lparr>Value = [], Error = Some e'\<rparr> else None)"
    by (simp add: Await_eq ctx_at_select_done)
  show ?thesis using a b c by blast
qed

text \<open>
  A cancellation of the scope does not turn Results that are already in the channel into
  a failure: both futures have delivered and forwarded, the scope is cancelled before the
  loop has collected anything, and the closure returns the two values with no error.
\<close>

lemma AllOf_late_cancel_success:
  "idx (AllOf_run (0::int) [New (\<lambda>_. Some (1, None)), New (\<lambda>_. Some (2, None))]
      [Select 0, Return 0, Forward 0, Select 1, Return 1, Forward 1, CancelParent Canceled]
      (AllOf_init 0 None 2)) = 0
   \<and> parent (AllOf_run (0::int) [New (\<lambda>_. Some (1, None)), New (\<lambda>_. Some (2, None))]
      [Select 0, Return 0, Forward 0, Select 1, Return 1, Forward 1, CancelParent Canceled]
      (AllOf_init 0 None 2)) = Some Canceled
   \<and> fn (AllOf (0::int) None
      [Select 0, Return 0, Forward 0, Select 1, Return 1, Forward 1, CancelParent Canceled,
       Closure, Closure, Closure]
      [New (\<lambda>_. Some (1, None)), New (\<lambda>_. Some (2, None))]) () = Some ([1, 2], None)"
  by (simp add: AllOf_step_def AllOf_init_def AllOf_collect_def task_select_def
      task_return_def WithCancel_def AllOf_outcome_def)

text \<open>
  The loop of lines 109-116 receives from the channel and from nothing else. Once every
  forwarding goroutine has taken the case \<^verbatim>\<open><-ctx.Done()\<close> while the channel is empty, no
  message will ever arrive and the closure never returns.
\<close>

lemma AllOf_stuck_step:
  assumes "\<forall>k < length fs. fwds s ! k = Gone" and "buffer s = []" and "ret s = None"
    and "idx s < length fs" and "\<not> panicked s"
  shows "(\<forall>k < length fs. fwds (AllOf_step zero fs ev s) ! k = Gone) \<and>
    buffer (AllOf_step zero fs ev s) = [] \<and> ret (AllOf_step zero fs ev s) = None \<and>
    idx (AllOf_step zero fs ev s) < length fs \<and> \<not> panicked (AllOf_step zero fs ev s)"
  using assms by (cases ev) (auto simp add: AllOf_step_def AllOf_collect_def)

lemma AllOf_stuck:
  assumes "\<forall>k < length fs. fwds s ! k = Gone" and "buffer s = []" and "ret s = None"
    and "idx s < length fs" and "\<not> panicked s"
  shows "ret (AllOf_run zero fs sched s) = None"
  using assms
proof (induction sched arbitrary: s)
  case Nil
  then show ?case by simp
next
  case (Cons ev sched)
  note st = AllOf_stuck_step [OF Cons.prems, of zero ev]
  show ?case using st by (auto intro: Cons.IH)
qed

lemma AllOf_outcome_pending: "ret s = None \<Longrightarrow> AllOf_outcome s = None"
  by (simp add: AllOf_outcome_def)

text \<open>
  C8 does not hold of the code: the collection does not end when the child scope signals
  cancellation. In \<^verbatim>\<open>AllOf(scope, f1, f2)\<close> with two futures that succeed, the scope is
  cancelled while the closure runs (first conjunct), or is already cancelled when the
  closure starts (second conjunct); each forwarding goroutine finds \<^verbatim>\<open>ctx.Done()\<close> ready at
  its \<^verbatim>\<open>select\<close> and returns (line 102) without sending. The loop is then blocked in the
  receive of line 110 for ever: whatever is scheduled afterwards, the closure does not
  return, neither the cancellation failure nor anything else. So \<^verbatim>\<open>Await\<close> on a scope
  that was not cancelled when its task started the closure does not return either (third
  conjunct), also when that scope is cancelled later.
\<close>

theorem AllOf_cancelled_deadlock:
  "fn (AllOf (0::int) None ([CancelParent Canceled, Quit 0, Quit 1] @ sched)
      [New (\<lambda>_. Some (1, None)), New (\<lambda>_. Some (2, None))]) () = None
   \<and> fn (AllOf (0::int) (Some Canceled) ([Quit 0, Quit 1] @ sched)
      [New (\<lambda>_. Some (1, None)), New (\<lambda>_. Some (2, None))]) () = None
   \<and> Await [] (AllOf (0::int) None ([CancelParent Canceled, Quit 0, Quit 1] @ sched)
      [New (\<lambda>_. Some (1, None)), New (\<lambda>_. Some (2, None))]) None (TaskSelect # sched') = None"
proof -
  let ?fs = "[New (\<lambda>_. Some (1::int, None)), New (\<lambda>_. Some (2, None))]"
  let ?s = "AllOf_run 0 ?fs [CancelParent Canceled, Quit 0, Quit 1]
    (AllOf_init 0 None (length ?fs))"
  let ?t = "AllOf_run 0 ?fs [Quit 0, Quit 1] (AllOf_init 0 (Some Canceled) (length ?fs))"
  have "ret (AllOf_run 0 ?fs sched ?s) = None"
    by (rule AllOf_stuck)
      (auto simp add: AllOf_step_def AllOf_init_def WithCancel_def less_Suc_eq)
  then have "AllOf_outcome (AllOf_run 0 ?fs sched ?s) = None"
    by (rule AllOf_outcome_pending)
  then have a: "fn (AllOf 0 None ([CancelParent Canceled, Quit 0, Quit 1] @ sched) ?fs) () = None"
    by (simp only: fn_AllOf AllOf_run_append)
  have "ret (AllOf_run 0 ?fs sched ?t) = None"
    by (rule AllOf_stuck)
      (auto simp add: AllOf_step_def AllOf_init_def WithCancel_def less_Suc_eq)
  then have "AllOf_outcome (AllOf_run 0 ?fs sched ?t) = None"
    by (rule AllOf_outcome_pending)
  then have b: "fn (AllOf 0 (Some Canceled) ([Quit 0, Quit 1] @ sched) ?fs) () = None"
    by (simp only: fn_AllOf AllOf_run_append)
  have c: "Await [] (AllOf 0 None ([CancelParent Canceled, Quit 0, Quit 1] @ sched) ?fs) None
      (TaskSelect # sched') = None"
    using a by (simp add: Await_eq del: fn_AllOf)
  show ?thesis using a b c by blast
qed

section \<open>Properties of \<^verbatim>\<open>AnyOf\<close>\<close>

lemma AnyOf_run_Nil [simp]: "AnyOf_run zero fs [] s = s"
  by (simp add: AnyOf_run_def)

lemma AnyOf_run_Cons [simp]:
  "AnyOf_run zero fs (ev # sched) s = AnyOf_run zero fs sched (AnyOf_step zero fs ev s)"
  by (simp add: AnyOf_run_def)

lemma AnyOf_run_append:
  "AnyOf_run zero fs (xs @ ys) s = AnyOf_run zero fs ys (AnyOf_run zero fs xs s)"
  by (simp add: AnyOf_run_def)

lemma fn_AnyOf [simp]:
  "fn (AnyOf zero c sched fs) () = outcome (AnyOf_run zero fs sched (AnyOf_init c (length fs)))"
  by (simp add: AnyOf_def)

lemma AnyOf_init_inv: "AnyOf_inv zero fs (AnyOf_init c (length fs))"
  by (simp add: AnyOf_inv_def AnyOf_shape_def AnyOf_links_def AnyOf_init_def WithCancel_def)

lemma cancel_is_Some [simp]: "\<exists>e. cancel c = Some e"
  by (cases c) simp_all

lemma parent_done_is_Some [simp]: "\<exists>e'. parent_done e c = Some e'"
  by (cases c) simp_all

lemma AnyOf_shape_step:
  assumes "AnyOf_shape fs s"
  shows "AnyOf_shape fs (AnyOf_step zero fs ev s)"
proof (cases ev)
  case (CancelParent e)
  then show ?thesis using assms
    by (cases "parent s"; cases "child s"; auto simp add: AnyOf_shape_def)
next
  case (Take k)
  then show ?thesis using assms
    by (auto simp add: AnyOf_shape_def nth_list_update split: task.splits)
next
  case (Forward k)
  then show ?thesis using assms
    by (auto simp add: AnyOf_shape_def nth_list_update split: racer.splits)
next
  case (Cancel k)
  then show ?thesis using assms
    by (auto simp add: AnyOf_shape_def nth_list_update)
next
  case (Quit k)
  then show ?thesis using assms
    by (auto simp add: AnyOf_shape_def nth_list_update split: racer.splits)
next
  case Closure
  then show ?thesis using assms
    by (auto simp add: AnyOf_shape_def split: option.splits)
qed (use assms in \<open>auto simp add: AnyOf_shape_def\<close>)

lemma AnyOf_links_step:
  assumes "AnyOf_shape fs s" and "AnyOf_links zero fs s"
  shows "AnyOf_links zero fs (AnyOf_step zero fs ev s)"
proof -
  have len: "length (tasks s) = length fs" "length (racers s) = length fs"
    using assms(1) by (simp_all add: AnyOf_shape_def)
  show ?thesis
  proof (cases ev)
    case (CancelParent e)
    then show ?thesis using assms(2)
      by (auto simp add: AnyOf_links_def delivered_by_parent_done)
  next
    case (Select k)
    then show ?thesis using assms(2) len
      by (auto simp add: AnyOf_links_def nth_list_update task_select_eq_Delivered
          delivered_by_def split: option.splits)
  next
    case (Return k)
    then show ?thesis using assms(2) len
      by (auto simp add: AnyOf_links_def nth_list_update task_return_eq_Delivered
          delivered_by_def)
  next
    case (Take k)
    then show ?thesis using assms(2) len
      by (auto simp add: AnyOf_links_def nth_list_update split: task.splits)
  next
    case (Forward k)
    then show ?thesis using assms(2) len
      by (auto simp add: AnyOf_links_def nth_list_update split: racer.splits)
  next
    case (Cancel k)
    then show ?thesis using assms(2) len
      by (auto simp add: AnyOf_links_def nth_list_update delivered_by_cancel)
  next
    case (Quit k)
    then show ?thesis using assms(2) len
      by (auto simp add: AnyOf_links_def nth_list_update split: racer.splits)
  next
    case Closure
    then show ?thesis using assms(2)
      by (auto simp add: AnyOf_links_def delivered_by_cancel split: option.splits)
  qed
qed

lemma AnyOf_step_keeps_task:
  "tasks s ! j = Delivered r \<Longrightarrow> tasks (AnyOf_step zero fs ev s) ! j = Delivered r"
  by (cases ev) (auto simp add: select_keeps return_keeps split: task.splits racer.splits
      option.splits)

lemma AnyOf_step_keeps_received:
  "received s = Some r \<Longrightarrow> received (AnyOf_step zero fs ev s) = Some r"
  by (cases ev) (auto split: task.splits racer.splits option.splits)

lemma AnyOf_step_keeps_sender:
  assumes "racers s ! j = Sender \<or> racers s ! j = Winner"
  shows "racers (AnyOf_step zero fs ev s) ! j = Sender
    \<or> racers (AnyOf_step zero fs ev s) ! j = Winner"
proof (cases ev)
  case (Take k)
  then show ?thesis using assms
    by (cases "k < length (racers s)"; cases "j = k";
        auto simp add: list_update_beyond split: task.splits)
next
  case (Forward k)
  then show ?thesis using assms
    by (cases "k < length (racers s)"; cases "j = k";
        auto simp add: list_update_beyond split: racer.splits)
next
  case (Cancel k)
  then show ?thesis using assms
    by (cases "k < length (racers s)"; cases "j = k"; auto simp add: list_update_beyond)
next
  case (Quit k)
  then show ?thesis using assms
    by (cases "k < length (racers s)"; cases "j = k";
        auto simp add: list_update_beyond split: racer.splits)
qed (use assms in \<open>auto split: option.splits\<close>)

lemma AnyOf_winner_step:
  "AnyOf_winner fs s k r \<Longrightarrow> AnyOf_winner fs (AnyOf_step zero fs ev s) k r"
  unfolding AnyOf_winner_def
  using AnyOf_step_keeps_task [of s k r zero fs ev]
    AnyOf_step_keeps_received [of s r zero fs ev]
    AnyOf_step_keeps_sender [of s k zero fs ev]
  by blast

lemma AnyOf_step_received:
  assumes "received s = None" and "received (AnyOf_step zero fs ev s) \<noteq> None"
  shows "\<exists>k r. ev = Forward k \<and> k < length fs \<and> racers s ! k = Holding r"
  using assms by (cases ev) (auto split: task.splits racer.splits option.splits if_splits)

lemma AnyOf_Forward_winner:
  assumes "AnyOf_shape fs s" and "AnyOf_links zero fs s" and "k < length fs"
    and "racers s ! k = Holding r" and "received s = None"
  shows "AnyOf_winner fs (AnyOf_step zero fs (Forward k) s) k r"
proof -
  have "length (racers s) = length fs" using assms(1) by (simp add: AnyOf_shape_def)
  moreover have "tasks s ! k = Delivered r"
    using assms(2,3,4) by (simp add: AnyOf_links_def)
  ultimately show ?thesis using assms(3,4,5) by (simp add: AnyOf_winner_def)
qed

lemma AnyOf_inv_step:
  assumes "AnyOf_inv zero fs s"
  shows "AnyOf_inv zero fs (AnyOf_step zero fs ev s)"
proof -
  have sh: "AnyOf_shape fs s" and li: "AnyOf_links zero fs s"
    using assms by (simp_all add: AnyOf_inv_def)
  have "\<exists>k r. AnyOf_winner fs (AnyOf_step zero fs ev s) k r"
    if n: "received (AnyOf_step zero fs ev s) \<noteq> None"
  proof (cases "received s")
    case None
    obtain k r where "ev = Forward k" "k < length fs" "racers s ! k = Holding r"
      using AnyOf_step_received [OF None n] by auto
    then show ?thesis using AnyOf_Forward_winner [OF sh li _ _ None] by blast
  next
    case (Some r0)
    then obtain k r where "AnyOf_winner fs s k r"
      using assms by (auto simp add: AnyOf_inv_def)
    then have "AnyOf_winner fs (AnyOf_step zero fs ev s) k r"
      by (rule AnyOf_winner_step)
    then show ?thesis by auto
  qed
  then show ?thesis
    using AnyOf_shape_step [OF sh] AnyOf_links_step [OF sh li]
    by (simp add: AnyOf_inv_def)
qed

lemma AnyOf_inv_run:
  "AnyOf_inv zero fs s \<Longrightarrow> AnyOf_inv zero fs (AnyOf_run zero fs sched s)"
  by (induction sched arbitrary: s) (simp_all add: AnyOf_inv_step)

lemma AnyOf_inv_reachable:
  "AnyOf_inv zero fs (AnyOf_run zero fs sched (AnyOf_init c (length fs)))"
  by (intro AnyOf_inv_run AnyOf_init_inv)

lemma AnyOf_live_step:
  assumes "AnyOf_live zero fs s" and "\<forall>e. ev \<noteq> CancelParent e"
  shows "AnyOf_live zero fs (AnyOf_step zero fs ev s)"
proof -
  have inv: "AnyOf_inv zero fs s" and p: "parent s = None"
    and nl: "received s = None \<longrightarrow> (\<forall>k < length fs. racers s ! k \<noteq> Loser)"
    using assms(1) by (simp_all add: AnyOf_live_def)
  have sh: "AnyOf_shape fs s" using inv by (simp add: AnyOf_inv_def)
  have len: "length (racers s) = length fs" using sh by (simp add: AnyOf_shape_def)
  have c: "received s = None \<longrightarrow> child s = None \<and> outcome s = None"
    using sh p by (simp add: AnyOf_shape_def)
  have "parent (AnyOf_step zero fs ev s) = None"
    using p assms(2) by (cases ev) (auto split: task.splits racer.splits option.splits)
  moreover have "racers (AnyOf_step zero fs ev s) ! k \<noteq> Loser"
    if "received (AnyOf_step zero fs ev s) = None" "k < length fs" for k
  proof -
    have r: "received s = None"
      using that(1) AnyOf_step_keeps_received [of s _ zero fs ev] by (cases "received s") auto
    then have "racers s ! k \<noteq> Loser" using nl that(2) by simp
    then show ?thesis using r c len that(2)
      by (cases ev) (auto simp add: nth_list_update split: task.splits racer.splits)
  qed
  ultimately show ?thesis using inv by (simp add: AnyOf_live_def AnyOf_inv_step)
qed

lemma AnyOf_init_live: "AnyOf_live zero fs (AnyOf_init None (length fs))"
  by (simp add: AnyOf_live_def AnyOf_init_inv) (simp add: AnyOf_init_def)

lemma AnyOf_phase_init: "k < n \<Longrightarrow> AnyOf_phase (AnyOf_init c n) k = 0"
  by (simp add: AnyOf_phase_def AnyOf_init_def)

lemma AnyOf_phase_le_4: "AnyOf_phase s k \<le> 4"
  by (simp add: AnyOf_phase_def split: task.splits racer.splits)

lemma AnyOf_phase_step:
  assumes live: "AnyOf_live zero fs s" and k: "k < length fs"
    and ok: "fn (fs ! k) () \<noteq> None" and nc: "\<forall>e. ev \<noteq> CancelParent e"
  shows "AnyOf_phase s k \<le> AnyOf_phase (AnyOf_step zero fs ev s) k"
    and "AnyOf_phase s k < 4 \<Longrightarrow> ev = [Select k, Return k, Take k, Forward k] ! AnyOf_phase s k
      \<Longrightarrow> AnyOf_phase s k < AnyOf_phase (AnyOf_step zero fs ev s) k"
proof -
  have inv: "AnyOf_inv zero fs s" and p: "parent s = None"
    and nl: "received s = None \<longrightarrow> (\<forall>k < length fs. racers s ! k \<noteq> Loser)"
    using live by (simp_all add: AnyOf_live_def)
  have sh: "AnyOf_shape fs s" using inv by (simp add: AnyOf_inv_def)
  have len: "length (racers s) = length fs" "length (tasks s) = length fs"
    using sh by (simp_all add: AnyOf_shape_def)
  obtain v err where f: "fn (fs ! k) () = Some (v, err)" using ok by auto
  show "AnyOf_phase s k \<le> AnyOf_phase (AnyOf_step zero fs ev s) k"
  proof (cases "received s")
    case (Some r)
    then have "received (AnyOf_step zero fs ev s) = Some r"
      by (rule AnyOf_step_keeps_received)
    then show ?thesis using Some by (simp add: AnyOf_phase_def)
  next
    case None
    then have c: "child s = None" "outcome s = None"
      and nw: "racers s ! k \<noteq> Sender" "racers s ! k \<noteq> Winner" "racers s ! k \<noteq> Loser"
      using sh p nl k by (simp_all add: AnyOf_shape_def)
    show ?thesis using None c nw nc len k f
      by (cases ev; cases "racers s ! k"; cases "tasks s ! k")
        (auto simp add: AnyOf_phase_def nth_list_update task_select_def task_return_def
          split: task.splits racer.splits)
  qed
  show "AnyOf_phase s k < AnyOf_phase (AnyOf_step zero fs ev s) k"
    if lt: "AnyOf_phase s k < 4"
      and ev: "ev = [Select k, Return k, Take k, Forward k] ! AnyOf_phase s k"
  proof -
    have None: "received s = None" using lt by (auto simp add: AnyOf_phase_def split: if_splits)
    then have c: "child s = None" "outcome s = None"
      and nw: "racers s ! k \<noteq> Sender" "racers s ! k \<noteq> Winner" "racers s ! k \<noteq> Loser"
      using sh p nl k by (simp_all add: AnyOf_shape_def)
    show ?thesis using None c nw len k f ev
      by (cases "racers s ! k"; cases "tasks s ! k")
        (auto simp add: AnyOf_phase_def nth_list_update task_select_def task_return_def)
  qed
qed

lemma subseq_drop_step:
  assumes "subseq (drop p L) (ev # sched)" and "p \<le> p'"
    and "p < length L \<Longrightarrow> ev = L ! p \<Longrightarrow> p < p'"
  shows "subseq (drop p' L) sched"
proof (cases "p < length L")
  case False
  then show ?thesis using assms(2) by simp
next
  case True
  then have d: "drop p L = L ! p # drop (Suc p) L"
    by (simp add: Cons_nth_drop_Suc)
  have suf: "subseq (drop p' L) (drop q L)" if "q \<le> p'" for q
  proof -
    have "drop p' L = drop (p' - q) (drop q L)" using that by simp
    then have "suffix (drop p' L) (drop q L)" by (metis suffix_drop)
    then show ?thesis by (rule suffix_imp_subseq)
  qed
  show ?thesis
  proof (cases "ev = L ! p")
    case True
    then have "subseq (drop (Suc p) L) sched" using assms(1) d by simp
    moreover have "subseq (drop p' L) (drop (Suc p) L)"
      using assms(3) [OF \<open>p < length L\<close> True] by (intro suf) simp
    ultimately show ?thesis by (rule subseq_order.trans [rotated])
  next
    case False
    then have "subseq (drop p L) sched" using assms(1) d by simp
    moreover have "subseq (drop p' L) (drop p L)" using assms(2) by (rule suf)
    ultimately show ?thesis by (rule subseq_order.trans [rotated])
  qed
qed

lemma AnyOf_phase_run:
  assumes "AnyOf_live zero fs s" and "k < length fs" and "fn (fs ! k) () \<noteq> None"
    and "\<forall>e. CancelParent e \<notin> set sched"
    and "subseq (drop (AnyOf_phase s k) [Select k, Return k, Take k, Forward k]) sched"
  shows "AnyOf_phase (AnyOf_run zero fs sched s) k = 4"
  using assms
proof (induction sched arbitrary: s)
  case Nil
  have "drop (AnyOf_phase s k) [Select k, Return k, Take k, Forward k] = []"
    using Nil.prems(5) by (rule list_emb_Nil2)
  then have "4 \<le> AnyOf_phase s k" by simp
  then show ?case using AnyOf_phase_le_4 [of s k] by simp
next
  case (Cons ev sched)
  have nc: "\<forall>e. ev \<noteq> CancelParent e" using Cons.prems(4) by auto
  have l: "AnyOf_live zero fs (AnyOf_step zero fs ev s)"
    using Cons.prems(1) nc by (rule AnyOf_live_step)
  note st = AnyOf_phase_step [OF Cons.prems(1,2,3) nc]
  have "subseq (drop (AnyOf_phase (AnyOf_step zero fs ev s) k)
      [Select k, Return k, Take k, Forward k]) sched"
    using Cons.prems(5) st(1)
  proof (rule subseq_drop_step)
    assume "AnyOf_phase s k < length [Select k, Return k, Take k, Forward k]"
      and "ev = [Select k, Return k, Take k, Forward k] ! AnyOf_phase s k"
    then show "AnyOf_phase s k < AnyOf_phase (AnyOf_step zero fs ev s) k"
      using st(2) by simp
  qed
  then show ?case using Cons.IH [OF l Cons.prems(2,3)] Cons.prems(4) by simp
qed

lemma AnyOf_step_keeps_outcome:
  "outcome s = Some x \<Longrightarrow> outcome (AnyOf_step zero fs ev s) = Some x"
  by (cases ev) (auto split: task.splits racer.splits option.splits)

lemma AnyOf_step_keeps_child:
  "child s \<noteq> None \<Longrightarrow> child (AnyOf_step zero fs ev s) \<noteq> None"
  by (cases ev) (auto split: task.splits racer.splits option.splits)

lemma AnyOf_run_keeps_child:
  "child s \<noteq> None \<Longrightarrow> child (AnyOf_run zero fs sched s) \<noteq> None"
proof (induction sched arbitrary: s)
  case Nil
  then show ?case by simp
next
  case (Cons ev sched)
  have "child (AnyOf_step zero fs ev s) \<noteq> None"
    using Cons.prems by (rule AnyOf_step_keeps_child)
  then show ?case using Cons.IH by simp
qed

lemma AnyOf_run_keeps_outcome:
  "outcome s = Some x \<Longrightarrow> outcome (AnyOf_run zero fs sched s) = Some x"
  by (induction sched arbitrary: s) (simp_all add: AnyOf_step_keeps_outcome)

lemma AnyOf_run_keeps_received:
  "received s = Some r \<Longrightarrow> received (AnyOf_run zero fs sched s) = Some r"
  by (induction sched arbitrary: s) (simp_all add: AnyOf_step_keeps_received)

lemma AnyOf_run_winner:
  "AnyOf_winner fs s k r \<Longrightarrow> AnyOf_winner fs (AnyOf_run zero fs sched s) k r"
  by (induction sched arbitrary: s) (simp_all add: AnyOf_winner_step)

lemma AnyOf_outcome_after:
  assumes "received s = Some r" and "outcome s = None"
  shows "outcome (AnyOf_run zero fs sched s) =
    (if Closure \<in> set sched then Some (Value r, Error r) else None)"
  using assms
proof (induction sched arbitrary: s)
  case Nil
  then show ?case by simp
next
  case (Cons ev sched)
  show ?case
  proof (cases "ev = Closure")
    case True
    then have "outcome (AnyOf_step zero fs ev s) = Some (Value r, Error r)"
      using Cons.prems by simp
    then show ?thesis using True by (simp add: AnyOf_run_keeps_outcome)
  next
    case False
    have "received (AnyOf_step zero fs ev s) = Some r"
      using Cons.prems(1) by (rule AnyOf_step_keeps_received)
    moreover have "outcome (AnyOf_step zero fs ev s) = None"
      using Cons.prems False by (cases ev) (auto split: task.splits racer.splits)
    ultimately show ?thesis using Cons.IH False by simp
  qed
qed

lemma AnyOf_child_after:
  assumes "AnyOf_inv zero fs s" and "AnyOf_winner fs s k r"
    and "Closure \<in> set sched \<or> Cancel k \<in> set sched"
  shows "child (AnyOf_run zero fs sched s) \<noteq> None"
  using assms
proof (induction sched arbitrary: s)
  case Nil
  then show ?case by simp
next
  case (Cons ev sched)
  have inv: "AnyOf_inv zero fs (AnyOf_step zero fs ev s)"
    using Cons.prems(1) by (rule AnyOf_inv_step)
  have w: "AnyOf_winner fs (AnyOf_step zero fs ev s) k r"
    using Cons.prems(2) by (rule AnyOf_winner_step)
  show ?case
  proof (cases "ev = Closure \<or> ev = Cancel k")
    case True
    have sh: "AnyOf_shape fs s" using Cons.prems(1) by (simp add: AnyOf_inv_def)
    have "child (AnyOf_step zero fs ev s) \<noteq> None"
      using True Cons.prems(2) sh
      by (auto simp add: AnyOf_winner_def AnyOf_shape_def split: option.splits)
    then show ?thesis by (simp add: AnyOf_run_keeps_child)
  next
    case False
    then have "Closure \<in> set sched \<or> Cancel k \<in> set sched"
      using Cons.prems(3) by auto
    then show ?thesis using Cons.IH [OF inv w] by simp
  qed
qed

text \<open>
  C6. In a reachable state in which goroutine \<open>k\<close> holds the Result \<open>r\<close> of its future and
  the closure has received nothing yet, the send of goroutine \<open>k\<close> succeeds, and whatever
  happens afterwards (\<open>post\<close> is arbitrary) \<open>r\<close> is what the closure has received and what
  \<^verbatim>\<open>AnyOf\<close> returns at its next step, success or failure alike; the child context is done
  once the winner has called \<^verbatim>\<open>cancel()\<close> or the closure has returned. Whenever \<^verbatim>\<open>AnyOf\<close> has
  returned, what it returned is the Result that the one winning goroutine sent, which its
  task had delivered. And some send does succeed, so that \<^verbatim>\<open>AnyOf\<close> returns at the closure's
  next step, when the scope is not cancelled and the task and the goroutine of one
  future, whose \<open>fn\<close> returns, have taken their steps.
\<close>

theorem AnyOf_first_delivery:
  assumes "s = AnyOf_run zero fs pre (AnyOf_init c (length fs))"
  shows "(k < length fs \<and> racers s ! k = Holding r \<and> received s = None \<longrightarrow>
       tasks s ! k = Delivered r \<and> delivered_by zero (fs ! k) (child s) r \<and>
       (\<forall>post.
          received (AnyOf_run zero fs (Forward k # post) s) = Some r \<and>
          fn (AnyOf zero c (pre @ Forward k # post) fs) () =
            (if Closure \<in> set post then Some (Value r, Error r) else None) \<and>
          (Closure \<in> set post \<or> Cancel k \<in> set post \<longrightarrow>
             child (AnyOf_run zero fs (Forward k # post) s) \<noteq> None))) \<and>
    (\<forall>x. outcome s = Some x \<longrightarrow>
       (\<exists>j r'. AnyOf_winner fs s j r' \<and> x = (Value r', Error r')) \<and> child s \<noteq> None) \<and>
    ((\<forall>e. CancelParent e \<notin> set pre) \<and> c = None \<and> j < length fs \<and> fn (fs ! j) () \<noteq> None \<and>
     subseq [Select j, Return j, Take j, Forward j] pre \<longrightarrow>
       received s \<noteq> None \<and> fn (AnyOf zero None (pre @ [Closure]) fs) () \<noteq> None)"
proof -
  have inv: "AnyOf_inv zero fs s" unfolding assms by (rule AnyOf_inv_reachable)
  then have sh: "AnyOf_shape fs s" and li: "AnyOf_links zero fs s"
    by (simp_all add: AnyOf_inv_def)
  have a: "tasks s ! k = Delivered r \<and> delivered_by zero (fs ! k) (child s) r \<and>
       (\<forall>post.
          received (AnyOf_run zero fs (Forward k # post) s) = Some r \<and>
          fn (AnyOf zero c (pre @ Forward k # post) fs) () =
            (if Closure \<in> set post then Some (Value r, Error r) else None) \<and>
          (Closure \<in> set post \<or> Cancel k \<in> set post \<longrightarrow>
             child (AnyOf_run zero fs (Forward k # post) s) \<noteq> None))"
    if h: "k < length fs \<and> racers s ! k = Holding r \<and> received s = None"
  proof -
    let ?t = "AnyOf_step zero fs (Forward k) s"
    have t: "tasks s ! k = Delivered r" using li h by (simp add: AnyOf_links_def)
    then have d: "delivered_by zero (fs ! k) (child s) r"
      using li h by (simp add: AnyOf_links_def)
    have w: "AnyOf_winner fs ?t k r"
      using h by (intro AnyOf_Forward_winner [OF sh li]) auto
    have it: "AnyOf_inv zero fs ?t" using inv by (rule AnyOf_inv_step)
    have rt: "received ?t = Some r" using w unfolding AnyOf_winner_def by blast
    have ot: "outcome ?t = None" using h sh by (simp add: AnyOf_shape_def)
    have "received (AnyOf_run zero fs (Forward k # post) s) = Some r" for post
      using rt by (simp add: AnyOf_run_keeps_received)
    moreover have "fn (AnyOf zero c (pre @ Forward k # post) fs) () =
        (if Closure \<in> set post then Some (Value r, Error r) else None)" for post
      using AnyOf_outcome_after [OF rt ot, of zero fs post]
      by (simp add: AnyOf_run_append assms)
    moreover have "child (AnyOf_run zero fs (Forward k # post) s) \<noteq> None"
      if "Closure \<in> set post \<or> Cancel k \<in> set post" for post
      using AnyOf_child_after [OF it w that] by simp
    ultimately show ?thesis using t d by blast
  qed
  have b: "(\<exists>j r'. AnyOf_winner fs s j r' \<and> x = (Value r', Error r')) \<and> child s \<noteq> None"
    if o: "outcome s = Some x" for x
  proof -
    have "received s \<noteq> None" using sh o by (auto simp add: AnyOf_shape_def)
    then obtain j r' where w: "AnyOf_winner fs s j r'"
      using inv by (auto simp add: AnyOf_inv_def)
    then have "received s = Some r'" unfolding AnyOf_winner_def by blast
    then have "x = (Value r', Error r')" using sh o by (auto simp add: AnyOf_shape_def)
    moreover have "child s \<noteq> None" using sh o by (simp add: AnyOf_shape_def)
    ultimately show ?thesis using w by blast
  qed
  have c: "received s \<noteq> None \<and> fn (AnyOf zero None (pre @ [Closure]) fs) () \<noteq> None"
    if h: "(\<forall>e. CancelParent e \<notin> set pre) \<and> c = None \<and> j < length fs \<and>
      fn (fs ! j) () \<noteq> None \<and> subseq [Select j, Return j, Take j, Forward j] pre"
  proof -
    have "AnyOf_phase s j = 4"
      unfolding assms using h
      by (intro AnyOf_phase_run) (auto simp add: AnyOf_init_live AnyOf_phase_init)
    then have r: "received s \<noteq> None"
      by (auto simp add: AnyOf_phase_def split: if_splits task.splits racer.splits)
    then obtain r' where r': "received s = Some r'" by auto
    have "outcome (AnyOf_step zero fs Closure s) \<noteq> None"
      using r' by (auto split: option.splits)
    then show ?thesis using r h by (simp add: AnyOf_run_append assms)
  qed
  show ?thesis using a b c by blast
qed

theorem AnyOf_first_delivery_witness:
  "fn (AnyOf (0::int) None
        ([Select 0, Select 1, Return 1, Take 1] @
         Forward 1 # [Return 0, Take 0, Forward 0, Cancel 1, Quit 0, Closure])
        [New (\<lambda>_. Some (1, None)), New (\<lambda>_. Some (0, Some (Failure ''something went wrong'')))]) ()
     = Some (0, Some (Failure ''something went wrong''))"
proof -
  let ?fs = "[New (\<lambda>_. Some (1::int, None)),
    New (\<lambda>_. Some (0, Some (Failure ''something went wrong'')))]"
  let ?pre = "[Select 0, Select 1, Return 1, Take 1]"
  let ?post = "[Return 0, Take 0, Forward 0, Cancel 1, Quit 0, Closure]"
  let ?r = "\<lparr>Value = 0::int, Error = Some (Failure ''something went wrong'')\<rparr>"
  let ?s = "AnyOf_run 0 ?fs ?pre (AnyOf_init None (length ?fs))"
  have h: "1 < length ?fs \<and> racers ?s ! 1 = Holding ?r \<and> received ?s = None"
    by (simp add: AnyOf_init_def task_select_def task_return_def WithCancel_def)
  note t = AnyOf_first_delivery [OF refl, where zero = "0::int" and fs = ?fs and pre = ?pre
      and c = None and k = 1 and r = ?r]
  have "\<forall>post. fn (AnyOf 0 None (?pre @ Forward 1 # post) ?fs) () =
      (if Closure \<in> set post then Some (Value ?r, Error ?r) else None)"
    using t h by blast
  then have "fn (AnyOf 0 None (?pre @ Forward 1 # ?post) ?fs) () =
      (if Closure \<in> set ?post then Some (Value ?r, Error ?r) else None)"
    by (rule spec)
  then show ?thesis by (simp del: fn_AnyOf)
qed

section \<open>Results with an error and a value\<close>

lemma task_select_zero_on_error:
  "task_zero_on_error zero t \<Longrightarrow> task_zero_on_error zero (task_select zero c t)"
  by (cases t; cases c) (simp_all add: task_zero_on_error_def task_select_def zero_on_error_def)

lemma task_return_zero_on_error:
  "task_zero_on_error zero t \<Longrightarrow> fn_zero_on_error zero f \<Longrightarrow>
   task_zero_on_error zero (task_return f t)"
  by (cases t)
    (auto simp add: task_zero_on_error_def task_return_def zero_on_error_def
      fn_zero_on_error_def split: option.splits)

lemma Await_step_zero_on_error:
  assumes "fn_zero_on_error zero f" and "task_zero_on_error zero (resultCh s)"
  shows "task_zero_on_error zero (resultCh (Await_step zero f ev s))"
  using assms
  by (cases ev)
    (auto simp add: task_select_zero_on_error task_return_zero_on_error
      split: option.splits task.splits)

lemma Await_run_zero_on_error:
  assumes "fn_zero_on_error zero f" and "task_zero_on_error zero (resultCh s)"
  shows "task_zero_on_error zero (resultCh (Await_run zero f sched s))"
  using assms(2)
proof (induction sched arbitrary: s)
  case Nil
  then show ?case by simp
next
  case (Cons ev sched)
  have "task_zero_on_error zero (resultCh (Await_step zero f ev s))"
    using assms(1) Cons.prems by (rule Await_step_zero_on_error)
  then show ?case using Cons.IH by simp
qed

lemma AwaitWithTimeout_step_zero_on_error:
  assumes f: "fn_zero_on_error zero f"
    and t: "task_zero_on_error zero (resultCh s)"
    and r: "returned_zero_on_error zero (returned s)"
  shows "task_zero_on_error zero (resultCh (AwaitWithTimeout_step zero f ev s))"
    and "returned_zero_on_error zero (returned (AwaitWithTimeout_step zero f ev s))"
proof -
  have w: "task_zero_on_error zero (resultCh (wake_on_result s'))
      \<and> returned_zero_on_error zero (returned (wake_on_result s'))"
    if "task_zero_on_error zero (resultCh s')" "returned_zero_on_error zero (returned s')"
    for s' :: "'a await_state"
    using that
    by (cases "resultCh s'")
      (auto simp add: wake_on_result_def task_zero_on_error_def returned_zero_on_error_def)
  have "task_zero_on_error zero (resultCh (AwaitWithTimeout_step zero f ev s))
      \<and> returned_zero_on_error zero (returned (AwaitWithTimeout_step zero f ev s))"
  proof (cases ev)
    case (CancelScope e)
    then show ?thesis using t r
      by (cases "scope s")
        (auto simp add: Let_def returned_zero_on_error_def zero_on_error_def)
  next
    case TaskSelect
    then show ?thesis
      using w [of "s\<lparr>resultCh := task_select zero (derived s) (resultCh s)\<rparr>"] t r
      by (simp add: task_select_zero_on_error)
  next
    case TaskReturn
    then show ?thesis
      using w [of "s\<lparr>resultCh := task_return f (resultCh s)\<rparr>"] t r f
      by (simp add: task_return_zero_on_error)
  next
    case (EnterSelect p)
    then show ?thesis using t r
      by (cases "scope s"; cases "resultCh s"; cases p)
        (auto simp add: returned_zero_on_error_def task_zero_on_error_def zero_on_error_def)
  next
    case TimerFires
    then show ?thesis using t r
      by (auto simp add: returned_zero_on_error_def zero_on_error_def)
  next
    case Receive
    then show ?thesis using t r by simp
  qed
  then show "task_zero_on_error zero (resultCh (AwaitWithTimeout_step zero f ev s))"
    and "returned_zero_on_error zero (returned (AwaitWithTimeout_step zero f ev s))"
    by simp_all
qed

lemma AwaitWithTimeout_run_zero_on_error:
  assumes "fn_zero_on_error zero f"
    and "task_zero_on_error zero (resultCh s)"
    and "returned_zero_on_error zero (returned s)"
  shows "returned_zero_on_error zero (returned (AwaitWithTimeout_run zero f sched s))"
  using assms(2,3)
proof (induction sched arbitrary: s)
  case Nil
  then show ?case by simp
next
  case (Cons ev sched)
  note st = AwaitWithTimeout_step_zero_on_error [OF assms(1) Cons.prems, of ev]
  have "returned_zero_on_error zero
    (returned (AwaitWithTimeout_run zero f sched (AwaitWithTimeout_step zero f ev s)))"
    using st by (rule Cons.IH)
  then show ?case by simp
qed

lemma Await_zero_on_error:
  assumes "fn_zero_on_error zero f"
  shows "returned_zero_on_error zero (Await zero f c sched)"
  using assms
  by (auto simp add: Await_eq returned_zero_on_error_def zero_on_error_def fn_zero_on_error_def
      split: option.splits)

lemma Then_zero_on_error:
  assumes "\<forall>v. fn_zero_on_error emptyU (New (\<lambda>_. mapFn v))"
  shows "fn_zero_on_error emptyU (Then zero emptyU f c sched mapFn)"
proof (cases "Await zero f c sched")
  case None
  then show ?thesis by (simp add: fn_zero_on_error_def Then_body_def)
next
  case (Some r)
  show ?thesis
  proof (cases "Error r")
    case None
    have "fn_zero_on_error emptyU (New (\<lambda>_. mapFn (Value r)))" using assms by simp
    then show ?thesis using Some None by (simp add: fn_zero_on_error_def Then_body_def)
  next
    case (Some e)
    then show ?thesis using \<open>Await zero f c sched = Some r\<close>
      by (simp add: fn_zero_on_error_def Then_body_def)
  qed
qed

lemma AllOf_zero_on_error: "fn_zero_on_error [] (AllOf zero c sched fs)"
proof -
  let ?s = "AllOf_run zero fs sched (AllOf_init zero c (length fs))"
  have re: "AllOf_returned zero fs ?s"
    using AllOf_inv_reachable [of zero fs sched c] by (simp add: AllOf_inv_def)
  show ?thesis
  proof (cases "AllOf_outcome ?s")
    case None
    then show ?thesis by (simp add: fn_zero_on_error_def)
  next
    case (Some x)
    then have r: "ret ?s = Some x" by (simp add: AllOf_outcome_Some)
    obtain xs err where x: "x = (xs, err)" by (cases x)
    show ?thesis
    proof (cases err)
      case None
      then show ?thesis using Some x by (simp add: fn_zero_on_error_def)
    next
      case (Some e)
      then have "xs = []" using re r x by (simp add: AllOf_returned_def)
      then show ?thesis using Some \<open>AllOf_outcome ?s = Some x\<close> x
        by (simp add: fn_zero_on_error_def)
    qed
  qed
qed

lemma AnyOf_zero_on_error:
  assumes "\<forall>k < length fs. fn_zero_on_error zero (fs ! k)"
  shows "fn_zero_on_error zero (AnyOf zero c sched fs)"
proof -
  let ?s = "AnyOf_run zero fs sched (AnyOf_init c (length fs))"
  have inv: "AnyOf_inv zero fs ?s" by (rule AnyOf_inv_reachable)
  then have sh: "AnyOf_shape fs ?s" and li: "AnyOf_links zero fs ?s"
    by (simp_all add: AnyOf_inv_def)
  show ?thesis
  proof (cases "outcome ?s")
    case None
    then show ?thesis by (simp add: fn_zero_on_error_def)
  next
    case (Some x)
    then have "received ?s \<noteq> None" using sh by (auto simp add: AnyOf_shape_def)
    then obtain j r where w: "AnyOf_winner fs ?s j r"
      using inv by (auto simp add: AnyOf_inv_def)
    then have j: "j < length fs" and t: "tasks ?s ! j = Delivered r" and r: "received ?s = Some r"
      unfolding AnyOf_winner_def by blast+
    have x: "x = (Value r, Error r)" using sh Some r by (auto simp add: AnyOf_shape_def)
    have "delivered_by zero (fs ! j) (child ?s) r"
      using li j t by (simp add: AnyOf_links_def)
    moreover have "fn_zero_on_error zero (fs ! j)" using assms j by simp
    ultimately have "Error r = None \<or> Value r = zero"
      by (cases "child ?s")
        (auto simp add: delivered_by_def fn_zero_on_error_def split: option.splits)
    then show ?thesis using Some x
      by (auto simp add: fn_zero_on_error_def split: option.splits)
  qed
qed

text \<open>
  C9, as the code has it. The Results that the package makes itself (for a cancelled
  scope, for the deadline, in the failure branch of \<^verbatim>\<open>Then\<close>, in the failure return of
  \<^verbatim>\<open>AllOf\<close>) carry the zero value; what a wrapped function returns is passed on as it is
  (lines 55, 76, 144). So every Result of \<^verbatim>\<open>Await\<close>, \<^verbatim>\<open>AwaitWithTimeout\<close> and of a delivery
  of \<^verbatim>\<open>Async\<close> has the zero value when its error is set, provided the wrapped function
  returns the zero value with every error; the same for \<^verbatim>\<open>Then\<close> provided \<open>mapFn\<close> does; for
  \<^verbatim>\<open>AllOf\<close> always; for \<^verbatim>\<open>AnyOf\<close> provided the functions of all its futures do.
\<close>

theorem zero_on_error_results:
  "(fn_zero_on_error zero f \<longrightarrow>
      returned_zero_on_error zero (Await zero f c sched) \<and>
      returned_zero_on_error zero (AwaitWithTimeout zero f c sched) \<and>
      task_zero_on_error zero (resultCh (Await_run zero f sched (await_init c)))) \<and>
   ((\<forall>v. fn_zero_on_error emptyU (New (\<lambda>_. mapFn v))) \<longrightarrow>
      fn_zero_on_error emptyU (Then zero emptyU f c sched mapFn)) \<and>
   fn_zero_on_error [] (AllOf zero c sched' fs) \<and>
   ((\<forall>k < length fs. fn_zero_on_error zero (fs ! k)) \<longrightarrow>
      fn_zero_on_error zero (AnyOf zero c sched' fs))"
proof -
  have i: "task_zero_on_error zero (resultCh (await_init c :: 'a await_state))"
    "returned_zero_on_error zero (returned (await_init c :: 'a await_state))"
    by (simp_all add: await_init_def Async_def task_zero_on_error_def
        returned_zero_on_error_def)
  have a: "returned_zero_on_error zero (Await zero f c sched) \<and>
      returned_zero_on_error zero (AwaitWithTimeout zero f c sched) \<and>
      task_zero_on_error zero (resultCh (Await_run zero f sched (await_init c)))"
    if h: "fn_zero_on_error zero f"
    using Await_zero_on_error [OF h] AwaitWithTimeout_run_zero_on_error [OF h i]
      Await_run_zero_on_error [OF h i(1)]
    by (simp add: AwaitWithTimeout_def)
  show ?thesis
    using a Then_zero_on_error [of emptyU mapFn zero f c sched]
      AllOf_zero_on_error [of zero c sched' fs] AnyOf_zero_on_error [of fs zero c sched']
    by blast
qed

theorem zero_on_error_results_witness:
  "Await (0::int) (New (\<lambda>_. Some (0, Some (Failure ''error'')))) None
      [TaskSelect, TaskReturn, Receive] = Some \<lparr>Value = 0, Error = Some (Failure ''error'')\<rparr>
   \<and> returned_zero_on_error (0::int)
      (Await 0 (New (\<lambda>_. Some (0, Some (Failure ''error'')))) None
         [TaskSelect, TaskReturn, Receive])"
proof -
  let ?f = "New (\<lambda>_. Some (0::int, Some (Failure ''error'')))"
  have h: "fn_zero_on_error 0 ?f" by (simp add: fn_zero_on_error_def)
  have "returned_zero_on_error 0 (Await 0 ?f None [TaskSelect, TaskReturn, Receive])"
    by (rule zero_on_error_results [where zero = "0::int" and f = ?f and c = None
          and sched = "[TaskSelect, TaskReturn, Receive]" and emptyU = "0::int"
          and mapFn = "\<lambda>v. None" and fs = "[]" and sched' = "[]",
          THEN conjunct1, THEN mp, OF h, THEN conjunct1])
  moreover have "Await 0 ?f None [TaskSelect, TaskReturn, Receive]
      = Some \<lparr>Value = 0, Error = Some (Failure ''error'')\<rparr>"
    by (simp add: Await_eq)
  ultimately show ?thesis by blast
qed

text \<open>
  The claim C9 as it is written fails: the wrapped function returns 5 together with an
  error, and the Result of \<^verbatim>\<open>Await\<close> has the error set and the value 5.
\<close>

theorem zero_on_error_counterexample:
  "Await (0::int) (New (\<lambda>_. Some (5, Some (Failure ''boom'')))) None
      [TaskSelect, TaskReturn, Receive] = Some \<lparr>Value = 5, Error = Some (Failure ''boom'')\<rparr>
   \<and> \<not> zero_on_error (0::int) \<lparr>Value = 5, Error = Some (Failure ''boom'')\<rparr>"
  by (simp add: Await_eq zero_on_error_def)

end
